theory Spec2Isabelle
  imports Main "HOL-Library.AList"
begin

section \<open>Go values used by the LDAP server\<close>

text \<open>
  The package is two Go files: the server (listening, accept loop, \<open>Stop\<close>) and the client
  session (read loop, write pump, shutdown watcher, teardown, response writer).  Every Go
  function is translated into a HOL function that returns what the function does, as a list
  of the operations it performs in program order, and how it ends.  Values the program gets
  from outside (what \<open>Accept\<close> returns, what the peer sends, what a hook or the codec
  answers) are arguments of the model.
\<close>

type_synonym duration = int

datatype conn = Conn nat

datatype listener = TcpListener string | TlsListener string

text \<open>
  An \<open>error\<close> value as the code inspects it: \<open>err.(*net.OpError)\<close> with its
  \<open>Timeout()\<close> answer, \<open>io.EOF\<close>, or any other error.
\<close>

datatype error = OpError bool | EOF | OtherError string

fun is_timeout :: "error \<Rightarrow> bool" where
  "is_timeout (OpError t) = t"
| "is_timeout EOF = False"
| "is_timeout (OtherError msg) = False"

datatype panic =
    NilDereference
  | CloseOfNilChannel
  | CloseOfClosedChannel
  | SendOnClosedChannel
  | AssignToNilMap
  | NegativeWaitGroup
  | UnlockOfUnlockedMutex
  | NoHandlerDefined
  | MultipleHandlerRegistrations

text \<open>How a call ends: it returns, it panics, or it is still running (the inputs ran out).\<close>

datatype outcome = Returned | Panicked panic | Pending

subsection \<open>Channels\<close>

text \<open>
  A Go channel: its capacity, the values buffered in it, and whether it was closed.  A
  variable of channel type is \<open>nil\<close> (\<open>None\<close>) until \<open>make\<close> is assigned to it.
  An operation on a channel proceeds, blocks the goroutine, or panics.
\<close>

record 'a chan =
  cap :: nat
  buf :: "'a list"
  closed :: bool

datatype 'a effect = Proceeds 'a | Blocks | Panics panic

definition make_chan :: "nat \<Rightarrow> 'a chan" where
  "make_chan n = \<lparr>cap = n, buf = [], closed = False\<rparr>"

text \<open>\<open>close(ch)\<close>: panics on a nil channel and on a channel that is already closed.\<close>

definition chan_close :: "'a chan option \<Rightarrow> 'a chan effect" where
  "chan_close c =
     (case c of
        None \<Rightarrow> Panics CloseOfNilChannel
      | Some ch \<Rightarrow> if closed ch then Panics CloseOfClosedChannel
                   else Proceeds (ch\<lparr>closed := True\<rparr>))"

text \<open>
  \<open>ch <- v\<close> with no goroutine waiting to receive: it proceeds while the buffer has room,
  blocks otherwise (always, on a nil channel), and panics on a closed channel.
\<close>

definition chan_send :: "'a chan option \<Rightarrow> 'a \<Rightarrow> 'a chan effect" where
  "chan_send c v =
     (case c of
        None \<Rightarrow> Blocks
      | Some ch \<Rightarrow> if closed ch then Panics SendOnClosedChannel
                   else if length (buf ch) < cap ch then Proceeds (ch\<lparr>buf := buf ch @ [v]\<rparr>)
                   else Blocks)"

text \<open>
  \<open>v, ok := <-ch\<close> with no goroutine waiting to send: a buffered value first; on a closed
  and drained channel the receive proceeds with \<open>ok = false\<close> (\<open>None\<close>); otherwise it blocks.
\<close>

definition chan_recv :: "'a chan option \<Rightarrow> ('a option \<times> 'a chan) effect" where
  "chan_recv c =
     (case c of
        None \<Rightarrow> Blocks
      | Some ch \<Rightarrow>
          (case buf ch of
             v # vs \<Rightarrow> Proceeds (Some v, ch\<lparr>buf := vs\<rparr>)
           | [] \<Rightarrow> if closed ch then Proceeds (None, ch) else Blocks))"

section \<open>The server: \<open>server.go\<close>\<close>

text \<open>
  The \<open>Server\<close> struct.  \<open>'h\<close> is the type of the registered \<open>Handler\<close>; the interface
  value is \<open>nil\<close> until \<open>Handle\<close> sets it.  \<open>wg\<close> is the counter of the wait group of
  live sessions.
\<close>

record 'h Server =
  Listener :: "listener option"
  ReadTimeout :: duration
  WriteTimeout :: duration
  wg :: int
  chDone :: "bool chan option"
  OnNewConnection :: "(conn \<Rightarrow> error option) option"
  Handler :: "'h option"

definition NewServer :: "'h Server" where
  "NewServer =
     \<lparr>Listener = None, ReadTimeout = 0, WriteTimeout = 0, wg = 0,
      chDone = Some (make_chan 0), OnNewConnection = None, Handler = None\<rparr>"

definition Handle :: "'h Server \<Rightarrow> 'h \<Rightarrow> panic + 'h Server" where
  "Handle s h =
     (if Handler s \<noteq> None then Inl MultipleHandlerRegistrations
      else Inr (s\<lparr>Handler := Some h\<rparr>))"

text \<open>
  The session as \<open>newClient\<close> and the accept loop leave it: the connection and the
  ordinal.  (Its channels, registry, lock and wait group are in the state the goroutines of
  the session share, see below.)
\<close>

record client =
  numero :: int
  rwc :: conn

datatype logmsg =
    LogListening string
  | LogStopping
  | LogAcceptError error
  | LogAccepted int
  | LogNoHandler

datatype srv_action =
    SrvLog logmsg
  | ListenerAccept
  | ListenerClose
  | NewConnReadDeadline conn duration
  | NewConnWriteDeadline conn duration
  | NewClient "conn option"
  | SrvWgAdd
  | GoClientServe client
  | NetListen string
  | TlsListen string
  | LoadX509KeyPair string string
  | ChSendError string
  | ChClose

text \<open>
  One turn of the accept loop gets from outside either that the \<open>select\<close> found
  \<open>chDone\<close> closed, or what \<open>Accept\<close> returned: the connection (nil or not) and the error
  (nil or not), as Go returns two values.
\<close>

datatype accept_input = ShutdownSeen | Accept "conn option" "error option"

text \<open>
  The two deadline calls right after \<open>Accept\<close>, before \<open>err\<close> is looked at: a method call
  on the nil connection panics.
\<close>

definition accept_deadlines :: "'h Server \<Rightarrow> conn option \<Rightarrow> panic + srv_action list" where
  "accept_deadlines s rw =
     (case rw of
        None \<Rightarrow> if ReadTimeout s \<noteq> 0 \<or> WriteTimeout s \<noteq> 0 then Inl NilDereference else Inr []
      | Some c \<Rightarrow>
          Inr ((if ReadTimeout s \<noteq> 0 then [NewConnReadDeadline c (ReadTimeout s)] else []) @
               (if WriteTimeout s \<noteq> 0 then [NewConnWriteDeadline c (WriteTimeout s)] else [])))"

definition prepend :: "'a list \<Rightarrow> 'a list \<times> 'b \<Rightarrow> 'a list \<times> 'b" where
  "prepend xs r = (xs @ fst r, snd r)"

text \<open>
  The \<open>for\<close> loop of \<open>Server.serve\<close>; \<open>i\<close> is the ordinal counter.  After the error branch the
  code goes on to \<open>newClient(rw)\<close> unless the error was a timeout; the log line of the new
  session calls \<open>cli.rwc.RemoteAddr()\<close>, which panics on the nil connection.
\<close>

fun Server_serve_loop :: "'h Server \<Rightarrow> int \<Rightarrow> accept_input list \<Rightarrow> srv_action list \<times> outcome" where
  "Server_serve_loop s i [] = ([], Pending)"
| "Server_serve_loop s i (ShutdownSeen # ins) = ([SrvLog LogStopping, ListenerClose], Returned)"
| "Server_serve_loop s i (Accept rw err # ins) =
     (case accept_deadlines s rw of
        Inl p \<Rightarrow> ([ListenerAccept], Panicked p)
      | Inr dl \<Rightarrow>
          (if (case err of None \<Rightarrow> False | Some e \<Rightarrow> is_timeout e)
           then prepend (ListenerAccept # dl) (Server_serve_loop s i ins)
           else
             (let logged = (case err of None \<Rightarrow> [] | Some e \<Rightarrow> [SrvLog (LogAcceptError e)]) in
              case rw of
                None \<Rightarrow> (ListenerAccept # dl @ logged @ [NewClient None], Panicked NilDereference)
              | Some c \<Rightarrow>
                  prepend
                    (ListenerAccept # dl @ logged @
                     [NewClient (Some c), SrvLog (LogAccepted (i + 1)), SrvWgAdd,
                      GoClientServe \<lparr>numero = i + 1, rwc = c\<rparr>])
                    (Server_serve_loop s (i + 1) ins))))"

text \<open>
  \<open>Server.serve\<close>: the deferred \<open>Listener.Close()\<close> runs when the function returns or panics.
\<close>

definition Server_serve :: "'h Server \<Rightarrow> accept_input list \<Rightarrow> srv_action list \<times> outcome" where
  "Server_serve s ins =
     (if Handler s = None then ([SrvLog LogNoHandler, ListenerClose], Panicked NoHandlerDefined)
      else
        (case Server_serve_loop s 0 ins of
           (tr, Pending) \<Rightarrow> (tr, Pending)
         | (tr, out) \<Rightarrow> (tr @ [ListenerClose], out)))"

text \<open>
  \<open>ListenAndServe\<close>.  \<open>listen\<close> is \<open>net.Listen("tcp", addr)\<close>; \<open>ch\<close> tells whether the
  error channel is non-nil; the options run on the server before \<open>serve\<close>.
\<close>

definition ListenAndServe ::
  "'h Server \<Rightarrow> string \<Rightarrow> bool \<Rightarrow> ('h Server \<Rightarrow> 'h Server) list \<Rightarrow>
   (string \<Rightarrow> string + listener) \<Rightarrow> accept_input list \<Rightarrow> srv_action list \<times> outcome" where
  "ListenAndServe s addr ch options listen ins =
     (case listen addr of
        Inl e \<Rightarrow>
          ([NetListen addr, ChSendError (''error creating listener: '' @ e)],
           if ch then Returned else Pending)
      | Inr l \<Rightarrow>
          prepend
            ([NetListen addr] @ (if ch then [ChClose] else []) @ [SrvLog (LogListening addr)])
            (Server_serve (fold (\<lambda>option s. option s) options (s\<lparr>Listener := Some l\<rparr>)) ins))"

text \<open>
  \<open>ListenAndServeTLS\<close>: an empty address is replaced first; \<open>load\<close> is
  \<open>tls.LoadX509KeyPair\<close> and \<open>listen\<close> is \<open>tls.Listen("tcp", addr, &tlsConfig)\<close>.
\<close>

definition ListenAndServeTLS ::
  "'h Server \<Rightarrow> string \<Rightarrow> string \<Rightarrow> string \<Rightarrow> bool \<Rightarrow> ('h Server \<Rightarrow> 'h Server) list \<Rightarrow>
   (string \<Rightarrow> string \<Rightarrow> string option) \<Rightarrow> (string \<Rightarrow> string + listener) \<Rightarrow>
   accept_input list \<Rightarrow> srv_action list \<times> outcome" where
  "ListenAndServeTLS s addr0 certFile keyFile ch options load listen ins =
     (let addr = (if addr0 = [] then '':686'' else addr0) in
      case load certFile keyFile of
        Some e \<Rightarrow>
          ([LoadX509KeyPair certFile keyFile,
            ChSendError (''error creating certificate chain: '' @ e)],
           if ch then Returned else Pending)
      | None \<Rightarrow>
          (case listen addr of
             Inl e \<Rightarrow>
               ([LoadX509KeyPair certFile keyFile, TlsListen addr,
                 ChSendError (''error creating listener: '' @ e)],
                if ch then Returned else Pending)
           | Inr l \<Rightarrow>
               prepend
                 ([LoadX509KeyPair certFile keyFile, TlsListen addr] @
                  (if ch then [ChClose] else []) @ [SrvLog (LogListening addr)])
                 (Server_serve (fold (\<lambda>option s. option s) options (s\<lparr>Listener := Some l\<rparr>)) ins)))"

text \<open>
  \<open>Stop\<close>: \<open>close(s.chDone)\<close>, then \<open>s.wg.Wait()\<close>.  In the state it is called in, the
  call returns if the counter is zero; \<open>StopWaits\<close> is the call suspended in \<open>Wait\<close>, the
  signal already closed, until the sessions have brought the counter to zero.
\<close>

datatype 'h stopped = StopReturns "'h Server" | StopWaits "'h Server" | StopPanics panic

definition Stop :: "'h Server \<Rightarrow> 'h stopped" where
  "Stop s =
     (case chan_close (chDone s) of
        Panics p \<Rightarrow> StopPanics p
      | Blocks \<Rightarrow> StopWaits s
      | Proceeds ch \<Rightarrow>
          (let s' = s\<lparr>chDone := Some ch\<rparr> in
           if wg s' = 0 then StopReturns s' else StopWaits s'))"

section \<open>The session: \<open>client.go\<close>\<close>

subsection \<open>Envelopes and request contexts\<close>

text \<open>
  The codec's envelope, as far as the session looks into it: the message identifier and
  which operation it carries.  The session tells apart the unbind request, an extended
  request (by its request name) and everything else.
\<close>

datatype ProtocolOp =
    UnbindRequest
  | ExtendedRequest string
  | ExtendedResponse int string string
  | OtherOp nat

record LDAPMessage =
  messageID :: int
  protocolOp :: ProtocolOp

definition NewLDAPMessageWithProtocolOp :: "ProtocolOp \<Rightarrow> LDAPMessage" where
  "NewLDAPMessageWithProtocolOp po = \<lparr>messageID = 0, protocolOp = po\<rparr>"

definition SetMessageID :: "LDAPMessage \<Rightarrow> int \<Rightarrow> LDAPMessage" where
  "SetMessageID m i = m\<lparr>messageID := i\<rparr>"

text \<open>
  The channel variables of one session and of its server: \<open>c.closing\<close>, \<open>c.chanOut\<close>,
  \<open>c.writeDone\<close>, \<open>c.srv.chDone\<close>, and the \<open>Done\<close> channel of the \<open>n\<close>-th request
  context the session builds.  A channel carries booleans or envelopes.
\<close>

datatype chvar = Closing | ChanOut | WriteDone | ChDone | DoneOf nat

datatype val = VBool bool | VMsg LDAPMessage

text \<open>The \<open>Message\<close> struct (the request context): the envelope, \<open>Done\<close>, the owning client.\<close>

record Message =
  m_LDAPMessage :: LDAPMessage
  Done :: chvar
  Client :: int

record responseWriterImpl =
  rw_chanOut :: chvar
  rw_messageID :: int

text \<open>
  The names \<open>constants.go\<close> gives to the two extended operations and to the result code of
  the notice of disconnection; that file is not among the sources, so they are parameters.
\<close>

record constants =
  NoticeOfStartTLS :: string
  NoticeOfDisconnection :: string
  LDAPResultUnwillingToPerform :: int

datatype role = Reader | Pump | Watcher | Worker | Abandoner

datatype clientlog =
    LogHookError error
  | LogReadTimeout error
  | LogReadError error
  | LogDecodeError string
  | LogClosing
  | LogClosed

text \<open>What one \<open>ReadPacket\<close> and \<open>readMessage\<close> give the read loop.\<close>

datatype read_input = ReadError error | DecodeError string | Decoded LDAPMessage

text \<open>
  The operations a goroutine of the session performs.  \<open>RangeWrite\<close> is the loop
  \<open>for msg := range c.chanOut { c.writeMessage(msg) }\<close> and \<open>CallWriteMessage m\<close> one
  call \<open>c.writeMessage(m)\<close> of its body; \<open>SelectShutdown a b body\<close> is the
  \<open>select\<close> of the shutdown watcher (on \<open>a\<close>: run \<open>body\<close> and return; on \<open>b\<close>: return);
  \<open>GoAbandonAll\<close> is \<open>for _, request := range c.requestList { go request.Abandon() }\<close>;
  \<open>Go\<close> starts a goroutine.
\<close>

datatype action =
    Log clientlog
  | MakeChan chvar nat
  | Close chvar
  | Send chvar val
  | Recv chvar
  | RangeWrite
  | CallWriteMessage LDAPMessage
  | SelectShutdown chvar chvar "action list"
  | MakeRequestList
  | SetReadDeadline duration
  | SetWriteDeadline duration
  | SetReadDeadlineSoon
  | ReadPacket read_input
  | Lock
  | Unlock
  | Store int Message
  | Delete int
  | GoAbandonAll
  | WgAdd
  | WgDone
  | WgWait
  | SrvWgDone
  | RwcClose
  | Go role "action list"
  | Raise panic

subsection \<open>The response writer\<close>

definition rw_Write :: "responseWriterImpl \<Rightarrow> ProtocolOp \<Rightarrow> action list" where
  "rw_Write w po =
     (let m = NewLDAPMessageWithProtocolOp po;
          m' = SetMessageID m (rw_messageID w)
      in [Send (rw_chanOut w) (VMsg m')])"

definition rw_WriteMessage :: "responseWriterImpl \<Rightarrow> LDAPMessage \<Rightarrow> action list" where
  "rw_WriteMessage w m = [Send (rw_chanOut w) (VMsg (SetMessageID m (rw_messageID w)))]"

text \<open>
  A handler is code of the embedding application.  What the session sees of one
  \<open>ServeLDAP(w, &m)\<close> is the calls it makes on the response writer, in order.
\<close>

datatype wcall = CallWrite ProtocolOp | CallWriteMessage_rw LDAPMessage

type_synonym handler = "Message \<Rightarrow> wcall list"

fun wcall_actions :: "responseWriterImpl \<Rightarrow> wcall \<Rightarrow> action list" where
  "wcall_actions w (CallWrite po) = rw_Write w po"
| "wcall_actions w (CallWriteMessage_rw m) = rw_WriteMessage w m"

definition ServeLDAP :: "handler \<Rightarrow> responseWriterImpl \<Rightarrow> Message \<Rightarrow> action list" where
  "ServeLDAP h w m = concat (map (wcall_actions w) (h m))"

subsection \<open>Request processing\<close>

definition registerRequest :: "Message \<Rightarrow> action list" where
  "registerRequest m = [Lock, Store (messageID (m_LDAPMessage m)) m, Unlock]"

definition unregisterRequest :: "Message \<Rightarrow> action list" where
  "unregisterRequest m = [Lock, Delete (messageID (m_LDAPMessage m)), Unlock]"

text \<open>
  \<open>ProcessRequestMessage\<close>; \<open>n\<close> numbers the request context, so that its \<open>Done\<close>
  channel is a new one.  The two deferred calls run last, \<open>unregisterRequest\<close> before
  \<open>c.wg.Done()\<close>, also when the call on a nil \<open>Handler\<close> panics.
\<close>

definition ProcessRequestMessage ::
  "handler Server \<Rightarrow> client \<Rightarrow> LDAPMessage \<Rightarrow> nat \<Rightarrow> action list" where
  "ProcessRequestMessage s c message n =
     (let m = \<lparr>m_LDAPMessage = message, Done = DoneOf n, Client = numero c\<rparr>;
          w = \<lparr>rw_chanOut = ChanOut, rw_messageID = messageID (m_LDAPMessage m)\<rparr>
      in [MakeChan (DoneOf n) 2] @ registerRequest m @
         (case Handler s of
            Some h \<Rightarrow> ServeLDAP h w m @ unregisterRequest m @ [WgDone]
          | None \<Rightarrow> unregisterRequest m @ [WgDone, Raise NilDereference]))"

subsection \<open>Teardown, write pump, shutdown watcher\<close>

definition client_close :: "action list" where
  "client_close =
     [Log LogClosing, Close Closing, SetReadDeadlineSoon,
      Lock, GoAbandonAll, Unlock,
      WgWait, Close ChanOut,
      Recv WriteDone, RwcClose, Log LogClosed,
      SrvWgDone]"

definition write_pump :: "action list" where
  "write_pump = [RangeWrite, Close WriteDone]"

definition notice :: "constants \<Rightarrow> LDAPMessage" where
  "notice k =
     NewLDAPMessageWithProtocolOp
       (ExtendedResponse (LDAPResultUnwillingToPerform k) ''server is about to stop''
          (NoticeOfDisconnection k))"

definition shutdown_watcher :: "constants \<Rightarrow> action list" where
  "shutdown_watcher k =
     [SelectShutdown ChDone Closing
        [WgAdd, Send ChanOut (VMsg (notice k)), WgDone, SetReadDeadlineSoon]]"

subsection \<open>The read loop\<close>

definition read_deadlines :: "'h Server \<Rightarrow> action list" where
  "read_deadlines s =
     (if ReadTimeout s \<noteq> 0 then [SetReadDeadline (ReadTimeout s)] else []) @
     (if WriteTimeout s \<noteq> 0 then [SetWriteDeadline (WriteTimeout s)] else [])"

definition is_startTLS :: "constants \<Rightarrow> LDAPMessage \<Rightarrow> bool" where
  "is_startTLS k message =
     (case protocolOp message of
        ExtendedRequest name \<Rightarrow> name = NoticeOfStartTLS k
      | _ \<Rightarrow> False)"

text \<open>
  The \<open>for\<close> loop of \<open>client.serve\<close> over what the peer sends; \<open>n\<close> counts the request
  contexts built so far.  The result is the operations up to the \<open>return\<close> (the deferred
  \<open>close\<close> is added by \<open>client_serve\<close>), or \<open>Pending\<close> when the loop waits in
  \<open>ReadPacket\<close>.
\<close>

fun client_serve_loop ::
  "constants \<Rightarrow> handler Server \<Rightarrow> client \<Rightarrow> nat \<Rightarrow> read_input list \<Rightarrow> action list \<times> outcome" where
  "client_serve_loop k s c n [] = (read_deadlines s, Pending)"
| "client_serve_loop k s c n (ReadError e # ins) =
     (read_deadlines s @ [ReadPacket (ReadError e)] @
      (if is_timeout e then [Log (LogReadTimeout e)]
       else if e \<noteq> EOF then [Log (LogReadError e)] else []),
      Returned)"
| "client_serve_loop k s c n (DecodeError msg # ins) =
     (read_deadlines s @ [ReadPacket (DecodeError msg), Log (LogDecodeError msg)], Returned)"
| "client_serve_loop k s c n (Decoded message # ins) =
     (if protocolOp message = UnbindRequest
      then (read_deadlines s @ [ReadPacket (Decoded message)], Returned)
      else if is_startTLS k message
      then prepend
             (read_deadlines s @ [ReadPacket (Decoded message), WgAdd] @
              ProcessRequestMessage s c message n)
             (client_serve_loop k s c (Suc n) ins)
      else prepend
             (read_deadlines s @
              [ReadPacket (Decoded message), WgAdd, Go Worker (ProcessRequestMessage s c message n)])
             (client_serve_loop k s c (Suc n) ins))"

text \<open>
  \<open>client.serve\<close>: \<open>defer c.close()\<close> first, so \<open>close\<close> runs at every \<open>return\<close>, also
  at the one after the connection hook refused, before the channels are made.
\<close>

definition client_serve ::
  "constants \<Rightarrow> handler Server \<Rightarrow> client \<Rightarrow> read_input list \<Rightarrow> action list \<times> outcome" where
  "client_serve k s c ins =
     (case (case OnNewConnection s of None \<Rightarrow> None | Some onc \<Rightarrow> onc (rwc c)) of
        Some err \<Rightarrow> ([MakeChan Closing 0, Log (LogHookError err)] @ client_close, Returned)
      | None \<Rightarrow>
          (case client_serve_loop k s c 0 ins of
             (tr, Pending) \<Rightarrow>
               ([MakeChan Closing 0, MakeChan ChanOut 0, MakeChan WriteDone 0,
                 Go Pump write_pump, Go Watcher (shutdown_watcher k), MakeRequestList] @ tr,
                Pending)
           | (tr, out) \<Rightarrow>
               ([MakeChan Closing 0, MakeChan ChanOut 0, MakeChan WriteDone 0,
                 Go Pump write_pump, Go Watcher (shutdown_watcher k), MakeRequestList] @ tr @
                client_close,
                out)))"

subsection \<open>The body of the write pump\<close>

text \<open>
  \<open>writeMessage\<close> gets three answers it does not look at: the error of \<open>m.Write()\<close>
  (next to the encoding), the error of \<open>c.bw.Write\<close> and the error of \<open>c.bw.Flush\<close>.
  The codec is not part of the package; its encoding is taken to be a byte string also when
  it reports an error.  (Where the goroutines of a session are run together, further down,
  one whole call of \<open>writeMessage\<close> is the single operation \<open>CallWriteMessage\<close>.)
\<close>

record write_answers =
  wa_data :: string
  wa_encode_err :: "error option"
  wa_write_err :: "error option"
  wa_flush_err :: "error option"

datatype pump_action = EncodeMsg LDAPMessage | BwWrite string | BwFlush | PumpLog error | CloseWriteDone

definition writeMessage :: "LDAPMessage \<Rightarrow> write_answers \<Rightarrow> pump_action list" where
  "writeMessage m r = [EncodeMsg m, BwWrite (wa_data r), BwFlush]"

text \<open>
  The write pump over what its \<open>range\<close> receives, one after the other: an envelope (with the
  answers its \<open>writeMessage\<close> will get), or the end of the closed and drained queue.
\<close>

datatype pump_input = QueueClosed | Received LDAPMessage write_answers

fun write_pump_run :: "pump_input list \<Rightarrow> pump_action list \<times> outcome" where
  "write_pump_run [] = ([], Pending)"
| "write_pump_run (QueueClosed # ins) = ([CloseWriteDone], Returned)"
| "write_pump_run (Received m r # ins) = prepend (writeMessage m r) (write_pump_run ins)"

section \<open>Running the goroutines of one session\<close>

text \<open>
  What the goroutines of one session share: the channels behind the channel variables
  (\<open>None\<close>: the variable is nil), the request registry (\<open>None\<close>: the nil map), the two
  wait-group counters, the registry lock and the connection.  \<open>enq\<close> lists the envelopes
  whose send on \<open>c.chanOut\<close> completed and \<open>wire\<close> those \<open>writeMessage\<close> was called
  for; \<open>events\<close> lists every operation performed, with the goroutine that performed it.
  A panic in any goroutine ends the program (\<open>crashed\<close>).
\<close>

record world =
  chans :: "chvar \<Rightarrow> val chan option"
  requestList :: "(int \<times> Message) list option"
  cwg :: int
  swg :: int
  mutex :: bool
  rwc_closed :: bool
  enq :: "LDAPMessage list"
  wire :: "LDAPMessage list"
  events :: "(nat \<times> action) list"
  crashed :: "panic option"
  threads :: "(role \<times> action list) list"

text \<open>
  Modelled from the spec: \<open>Message.Abandon\<close> is in a file that is not among the sources;
  the spec says it posts one cancellation signal on the request's cancellation channel.
\<close>

definition Abandon :: "Message \<Rightarrow> action list" where
  "Abandon m = [Send (Done m) (VBool True)]"

text \<open>The goroutine that waits in \<open>range c.chanOut\<close>, if there is one.\<close>

fun receiver :: "(role \<times> action list) list \<Rightarrow> nat option" where
  "receiver [] = None"
| "receiver ((r, RangeWrite # p) # ts) = Some 0"
| "receiver (t # ts) = map_option Suc (receiver ts)"

definition set_prog :: "nat \<Rightarrow> action list \<Rightarrow> world \<Rightarrow> world" where
  "set_prog i p w = w\<lparr>threads := (threads w)[i := (fst (threads w ! i), p)]\<rparr>"

definition spawn :: "(role \<times> action list) list \<Rightarrow> world \<Rightarrow> world" where
  "spawn ts w = w\<lparr>threads := threads w @ ts\<rparr>"

definition crash :: "panic \<Rightarrow> world \<Rightarrow> world" where
  "crash x w = w\<lparr>crashed := Some x\<rparr>"

definition ready :: "world \<Rightarrow> chvar \<Rightarrow> bool" where
  "ready w v = (case chan_recv (chans w v) of Proceeds r \<Rightarrow> True | _ \<Rightarrow> False)"

definition sent :: "chvar \<Rightarrow> val \<Rightarrow> LDAPMessage list" where
  "sent v x = (case (v, x) of (ChanOut, VMsg m) \<Rightarrow> [m] | _ \<Rightarrow> [])"

text \<open>
  Goroutine \<open>i\<close> performs the operation \<open>a\<close> at the head of its program; \<open>p\<close> is the rest.
  \<open>None\<close>: the operation blocks in this state.  A send on a channel without room completes
  only when a goroutine waits to receive from it; then the envelope goes over to that
  goroutine, which calls \<open>writeMessage\<close> on it next.  \<open>alt\<close> chooses the second case of a
  \<open>select\<close>.
\<close>

fun exec :: "bool \<Rightarrow> action \<Rightarrow> action list \<Rightarrow> nat \<Rightarrow> world \<Rightarrow> world option" where
  "exec alt (Log l) p i w = Some (set_prog i p w)"
| "exec alt (MakeChan v n) p i w =
     Some (set_prog i p (w\<lparr>chans := (chans w)(v := Some (make_chan n))\<rparr>))"
| "exec alt (Close v) p i w =
     (case chan_close (chans w v) of
        Panics x \<Rightarrow> Some (crash x w)
      | Blocks \<Rightarrow> None
      | Proceeds ch \<Rightarrow> Some (set_prog i p (w\<lparr>chans := (chans w)(v := Some ch)\<rparr>)))"
| "exec alt (Send v x) p i w =
     (case chan_send (chans w v) x of
        Panics e \<Rightarrow> Some (crash e w)
      | Proceeds ch \<Rightarrow>
          Some (set_prog i p (w\<lparr>chans := (chans w)(v := Some ch), enq := enq w @ sent v x\<rparr>))
      | Blocks \<Rightarrow>
          (case (chans w v, v, x, receiver (threads w)) of
             (Some ch, ChanOut, VMsg m, Some j) \<Rightarrow>
               Some (set_prog i p
                      (set_prog j (CallWriteMessage m # snd (threads w ! j))
                         (w\<lparr>enq := enq w @ [m]\<rparr>)))
           | _ \<Rightarrow> None))"
| "exec alt (Recv v) p i w =
     (case chan_recv (chans w v) of
        Proceeds (x, ch) \<Rightarrow> Some (set_prog i p (w\<lparr>chans := (chans w)(v := Some ch)\<rparr>))
      | _ \<Rightarrow> None)"
| "exec alt RangeWrite p i w =
     (case chan_recv (chans w ChanOut) of
        Proceeds (Some (VMsg m), ch) \<Rightarrow>
          Some (set_prog i (CallWriteMessage m # RangeWrite # p)
                  (w\<lparr>chans := (chans w)(ChanOut := Some ch)\<rparr>))
      | Proceeds (Some (VBool b), ch) \<Rightarrow> None
      | Proceeds (None, ch) \<Rightarrow> Some (set_prog i p w)
      | _ \<Rightarrow> None)"
| "exec alt (CallWriteMessage m) p i w = Some (set_prog i p (w\<lparr>wire := wire w @ [m]\<rparr>))"
| "exec alt (SelectShutdown a b body) p i w =
     (if \<not> alt \<and> ready w a then Some (set_prog i body w)
      else if alt \<and> ready w b then Some (set_prog i [] w)
      else None)"
| "exec alt MakeRequestList p i w = Some (set_prog i p (w\<lparr>requestList := Some []\<rparr>))"
| "exec alt (SetReadDeadline d) p i w = Some (set_prog i p w)"
| "exec alt (SetWriteDeadline d) p i w = Some (set_prog i p w)"
| "exec alt SetReadDeadlineSoon p i w = Some (set_prog i p w)"
| "exec alt (ReadPacket inp) p i w = Some (set_prog i p w)"
| "exec alt Lock p i w = (if mutex w then None else Some (set_prog i p (w\<lparr>mutex := True\<rparr>)))"
| "exec alt Unlock p i w =
     (if mutex w then Some (set_prog i p (w\<lparr>mutex := False\<rparr>))
      else Some (crash UnlockOfUnlockedMutex w))"
| "exec alt (Store key m) p i w =
     (case requestList w of
        None \<Rightarrow> Some (crash AssignToNilMap w)
      | Some l \<Rightarrow> Some (set_prog i p (w\<lparr>requestList := Some (AList.update key m l)\<rparr>)))"
| "exec alt (Delete key) p i w =
     Some (set_prog i p (w\<lparr>requestList := map_option (AList.delete key) (requestList w)\<rparr>))"
| "exec alt GoAbandonAll p i w =
     Some (spawn (map (\<lambda>(key, m). (Abandoner, Abandon m))
                    (case requestList w of None \<Rightarrow> [] | Some l \<Rightarrow> l))
             (set_prog i p w))"
| "exec alt WgAdd p i w = Some (set_prog i p (w\<lparr>cwg := cwg w + 1\<rparr>))"
| "exec alt WgDone p i w =
     (if cwg w - 1 < 0 then Some (crash NegativeWaitGroup w)
      else Some (set_prog i p (w\<lparr>cwg := cwg w - 1\<rparr>)))"
| "exec alt WgWait p i w = (if cwg w = 0 then Some (set_prog i p w) else None)"
| "exec alt SrvWgDone p i w =
     (if swg w - 1 < 0 then Some (crash NegativeWaitGroup w)
      else Some (set_prog i p (w\<lparr>swg := swg w - 1\<rparr>)))"
| "exec alt RwcClose p i w = Some (set_prog i p (w\<lparr>rwc_closed := True\<rparr>))"
| "exec alt (Go r q) p i w = Some (spawn [(r, q)] (set_prog i p w))"
| "exec alt (Raise x) p i w = Some (crash x w)"

text \<open>
  One step of the session: goroutine \<open>i\<close> runs (\<open>RunAlt\<close>: taking the second case of its
  \<open>select\<close>), or somebody calls \<open>Stop\<close>, whose first statement closes \<open>chDone\<close>.  After a
  panic nothing runs.
\<close>

datatype pick = Run nat | RunAlt nat | StopCalled

definition run_thread :: "bool \<Rightarrow> nat \<Rightarrow> world \<Rightarrow> world option" where
  "run_thread alt i w =
     (if i < length (threads w) then
        (case snd (threads w ! i) of
           [] \<Rightarrow> None
         | a # p \<Rightarrow> map_option (\<lambda>w'. w'\<lparr>events := events w' @ [(i, a)]\<rparr>) (exec alt a p i w))
      else None)"

definition step :: "pick \<Rightarrow> world \<Rightarrow> world option" where
  "step pk w =
     (if crashed w \<noteq> None then None
      else
        (case pk of
           StopCalled \<Rightarrow>
             (case chan_close (chans w ChDone) of
                Panics x \<Rightarrow> Some (crash x w)
              | Blocks \<Rightarrow> None
              | Proceeds ch \<Rightarrow> Some (w\<lparr>chans := (chans w)(ChDone := Some ch)\<rparr>))
         | Run i \<Rightarrow> run_thread False i w
         | RunAlt i \<Rightarrow> run_thread True i w))"

text \<open>A schedule is a list of picks; a pick that cannot run in the state it meets is passed over.\<close>

fun run :: "pick list \<Rightarrow> world \<Rightarrow> world" where
  "run [] w = w"
| "run (pk # pks) w = (case step pk w of None \<Rightarrow> run pks w | Some w' \<Rightarrow> run pks w')"

text \<open>
  The session when the accept loop has started its goroutine: the server's \<open>chDone\<close> made
  by \<open>NewServer\<close>, the session counted once in the server's wait group, nothing else made.
\<close>

definition session :: "action list \<Rightarrow> world" where
  "session prog =
     \<lparr>chans = (\<lambda>v. None)(ChDone := Some (make_chan 0)), requestList = None, cwg = 0, swg = 1,
      mutex = False, rwc_closed = False, enq = [], wire = [], events = [], crashed = None,
      threads = [(Reader, prog)]\<rparr>"

section \<open>Invariants of a running session\<close>

text \<open>
  The predicates below describe the states a session can reach; they are used to prove that
  teardown loses no response.  \<open>plain\<close> holds of the operations of the goroutines that are
  neither the read loop nor the write pump (request handlers, the shutdown watcher, the
  goroutines running \<open>Abandon\<close>): they start no goroutine, do not touch the connection and do
  not make, close or drain \<open>chanOut\<close> and \<open>writeDone\<close>.
\<close>

fun plain :: "action \<Rightarrow> bool" where
  "plain (Close v) = (v \<noteq> ChanOut \<and> v \<noteq> WriteDone)"
| "plain (MakeChan v n) = (v \<noteq> ChanOut \<and> v \<noteq> WriteDone)"
| "plain (Recv v) = (v \<noteq> ChanOut)"
| "plain RangeWrite = False"
| "plain (CallWriteMessage m) = False"
| "plain RwcClose = False"
| "plain (Go r q) = False"
| "plain (SelectShutdown a b body) = list_all plain body"
| "plain a = True"

text \<open>
  \<open>rd_ok b g p\<close> holds of a program \<open>p\<close> of the read loop (teardown included); \<open>b\<close> tells
  whether the write pump was started already and \<open>g\<close> whether the operation just performed
  was the receive from \<open>writeDone\<close>.  The two channels are made unbuffered and before the
  pump starts, the pump is started once, every other goroutine started is plain, and the
  connection is closed only right after the receive from \<open>writeDone\<close>.
\<close>

fun is_go_pump :: "action \<Rightarrow> bool" where
  "is_go_pump (Go r q) = (r = Pump)"
| "is_go_pump a = False"

fun allowed :: "bool \<Rightarrow> bool \<Rightarrow> action \<Rightarrow> bool" where
  "allowed b g (Go r q) = (if r = Pump then \<not> b \<and> q = write_pump else r \<noteq> Reader \<and> list_all plain q)"
| "allowed b g (MakeChan v n) = (v = ChanOut \<or> v = WriteDone \<longrightarrow> \<not> b \<and> n = 0)"
| "allowed b g (Close v) = (v \<noteq> WriteDone)"
| "allowed b g (Recv v) = (v \<noteq> ChanOut)"
| "allowed b g RwcClose = g"
| "allowed b g RangeWrite = False"
| "allowed b g (CallWriteMessage m) = False"
| "allowed b g (SelectShutdown x y body) = False"
| "allowed b g a = True"

fun rd_ok :: "bool \<Rightarrow> bool \<Rightarrow> action list \<Rightarrow> bool" where
  "rd_ok b g [] = True"
| "rd_ok b g (a # p) = (allowed b g a \<and> rd_ok (b \<or> is_go_pump a) (a = Recv WriteDone) p)"

text \<open>The four programs the write pump goes through.\<close>

definition pump_shape :: "action list \<Rightarrow> bool" where
  "pump_shape q =
     (q = [RangeWrite, Close WriteDone] \<or> (\<exists>m. q = [CallWriteMessage m, RangeWrite, Close WriteDone])
      \<or> q = [Close WriteDone] \<or> q = [])"

text \<open>
  \<open>shape\<close>: one read loop, at most one write pump, and every goroutine has a program of its
  kind.
\<close>

definition unique :: "role \<Rightarrow> (role \<times> action list) list \<Rightarrow> bool" where
  "unique R ts = (count_list (map fst ts) R \<le> 1)"

definition has_pump :: "(role \<times> action list) list \<Rightarrow> bool" where
  "has_pump ts = (Pump \<in> set (map fst ts))"

definition tinv :: "bool \<Rightarrow> role \<times> action list \<Rightarrow> bool" where
  "tinv b t =
     (case fst t of
        Reader \<Rightarrow> rd_ok b True (snd t)
      | Pump \<Rightarrow> pump_shape (snd t)
      | _ \<Rightarrow> list_all plain (snd t))"

definition shape :: "(role \<times> action list) list \<Rightarrow> bool" where
  "shape ts = (unique Reader ts \<and> unique Pump ts \<and> list_all (tinv (has_pump ts)) ts)"

text \<open>
  \<open>flushed\<close> relates the programs to the state: both channels are unbuffered; before the
  pump starts nothing was enqueued or written and \<open>writeDone\<close> is open; the pump has
  written all that was enqueued, or is about to write the one envelope it holds; once
  \<open>writeDone\<close> is closed the pump has ended with everything written; the read loop stands
  before closing the connection only when \<open>writeDone\<close> is closed.
\<close>

definition is_closed :: "val chan option \<Rightarrow> bool" where
  "is_closed c = (case c of Some ch \<Rightarrow> closed ch | None \<Rightarrow> False)"

definition unbuf :: "val chan option \<Rightarrow> bool" where
  "unbuf c = (case c of Some ch \<Rightarrow> cap ch = 0 \<and> buf ch = [] | None \<Rightarrow> True)"

definition pump_state ::
  "val chan option \<Rightarrow> val chan option \<Rightarrow> LDAPMessage list \<Rightarrow> LDAPMessage list \<Rightarrow> action list \<Rightarrow> bool" where
  "pump_state co wd wi en q =
     (if is_closed wd then q = [] \<and> wi = en \<and> is_closed co
      else (q = [RangeWrite, Close WriteDone] \<and> wi = en)
         \<or> (\<exists>m. q = [CallWriteMessage m, RangeWrite, Close WriteDone] \<and> en = wi @ [m])
         \<or> (q = [Close WriteDone] \<and> wi = en \<and> is_closed co))"

definition tstate ::
  "val chan option \<Rightarrow> val chan option \<Rightarrow> LDAPMessage list \<Rightarrow> LDAPMessage list \<Rightarrow> bool \<Rightarrow>
   role \<times> action list \<Rightarrow> bool" where
  "tstate co wd wi en hp t =
     (case fst t of
        Reader \<Rightarrow> is_closed wd \<or> rd_ok hp False (snd t)
      | Pump \<Rightarrow> pump_state co wd wi en (snd t)
      | _ \<Rightarrow> True)"

definition fl ::
  "val chan option \<Rightarrow> val chan option \<Rightarrow> LDAPMessage list \<Rightarrow> LDAPMessage list \<Rightarrow> bool \<Rightarrow>
   (role \<times> action list) list \<Rightarrow> bool" where
  "fl co wd wi en rc ts =
     (unbuf co \<and> unbuf wd \<and> (\<not> has_pump ts \<longrightarrow> wi = [] \<and> en = [] \<and> \<not> is_closed wd)
      \<and> list_all (tstate co wd wi en (has_pump ts)) ts \<and> (rc \<longrightarrow> is_closed wd))"

definition flushed :: "world \<Rightarrow> bool" where
  "flushed w = fl (chans w ChanOut) (chans w WriteDone) (wire w) (enq w) (rwc_closed w) (threads w)"

text \<open>Operations after which the rest of a read-loop program is judged as before.\<close>

definition neutral :: "bool \<Rightarrow> action \<Rightarrow> bool" where
  "neutral b a = (allowed b False a \<and> \<not> is_go_pump a \<and> a \<noteq> Recv WriteDone)"

text \<open>
  The session whose connection was refused: what is left of its program ends with
  \<open>close(c.chanOut)\<close> and the rest of teardown, \<open>chanOut\<close> is nil, and the connection and
  the server's counter are untouched.
\<close>

fun harmless :: "action \<Rightarrow> bool" where
  "harmless (MakeChan v n) = (v \<noteq> ChanOut)"
| "harmless (Close v) = (v \<noteq> ChanOut)"
| "harmless (Log l) = True"
| "harmless SetReadDeadlineSoon = True"
| "harmless Lock = True"
| "harmless Unlock = True"
| "harmless GoAbandonAll = True"
| "harmless WgWait = True"
| "harmless a = False"

definition stuck :: "world \<Rightarrow> bool" where
  "stuck w =
     ((\<exists>xs. list_all harmless xs \<and>
            threads w =
              [(Reader, xs @ [Close ChanOut, Recv WriteDone, RwcClose, Log LogClosed, SrvWgDone])])
      \<and> chans w ChanOut = None \<and> requestList w = None \<and> \<not> rwc_closed w \<and> swg w = 1)"

text \<open>
  \<open>done_by i w\<close>: the operations goroutine \<open>i\<close> has performed, in order.  \<open>in_order P\<close>:
  goroutine 0 is the read loop, and what it has performed is the beginning of the program
  \<open>P\<close>, the rest of \<open>P\<close> being what it still has to do.
\<close>

definition done_by :: "nat \<Rightarrow> world \<Rightarrow> action list" where
  "done_by i w = map snd (filter (\<lambda>e. fst e = i) (events w))"

definition in_order :: "action list \<Rightarrow> world \<Rightarrow> bool" where
  "in_order P w =
     (threads w \<noteq> [] \<and> fst (threads w ! 0) = Reader
      \<and> (crashed w = None \<longrightarrow> done_by 0 w @ snd (threads w ! 0) = P)
      \<and> take (length (done_by 0 w)) P = done_by 0 w)"

text \<open>
  \<open>single_writer\<close>: every call of \<open>writeMessage\<close> performed so far was performed by a
  goroutine started as the write pump.
\<close>

definition single_writer :: "world \<Rightarrow> bool" where
  "single_writer w =
     (\<forall>i m. (i, CallWriteMessage m) \<in> set (events w) \<longrightarrow>
            i < length (threads w) \<and> fst (threads w ! i) = Pump)"

subsection \<open>Cancellation signals\<close>


text \<open>
  \<open>occ P a\<close> counts the operations satisfying \<open>P\<close> that \<open>a\<close> stands for, those of the
  goroutine it starts included; \<open>occs\<close> counts them in a program and \<open>tot\<close> in the
  programs of all goroutines.
\<close>

fun occ :: "(action \<Rightarrow> bool) \<Rightarrow> action \<Rightarrow> nat" where
  "occ P (Go r q) = sum_list (map (occ P) q)"
| "occ P (SelectShutdown a b body) = sum_list (map (occ P) body)"
| "occ P a = (if P a then 1 else 0)"

definition occs :: "(action \<Rightarrow> bool) \<Rightarrow> action list \<Rightarrow> nat" where
  "occs P p = sum_list (map (occ P) p)"

definition tot :: "(action \<Rightarrow> bool) \<Rightarrow> (role \<times> action list) list \<Rightarrow> nat" where
  "tot P ts = sum_list (map (\<lambda>t. occs P (snd t)) ts)"













section \<open>Properties of the server\<close>

text \<open>
  C1 (the code departs from it): in the accept loop a timeout-class accept error is retried
  without creating a session, any other accept error is logged and the loop continues
  without creating a session, and only a successful accept gets the configured deadlines
  and a session.  The code applies the deadlines before it looks at the error, and after
  logging an error that is no timeout it goes on to \<open>newClient\<close>.  With a handler
  registered and \<open>Accept\<close> returning no connection and an error: after a non-timeout error
  a session is made from the nil connection and the loop panics instead of continuing; with
  a read timeout configured, even a timeout error is not retried, the deadline call on the
  nil connection panics.
\<close>

theorem Server_serve_accept_error_not_contained:
  "Server_serve (NewServer\<lparr>Handler := Some h\<rparr>) (Accept None (Some (OtherError msg)) # ins) =
     ([ListenerAccept, SrvLog (LogAcceptError (OtherError msg)), NewClient None, ListenerClose],
      Panicked NilDereference)
   \<and> Server_serve (NewServer\<lparr>Handler := Some h, ReadTimeout := 5\<rparr>)
         (Accept None (Some (OpError True)) # ins) =
     ([ListenerAccept, ListenerClose], Panicked NilDereference)"
  by (simp add: Server_serve_def NewServer_def accept_deadlines_def)

text \<open>
  C3, as the claim states it, fails: on a new server with no session the first \<open>Stop\<close>
  returns with the signal closed, and \<open>Stop\<close> called again on that server panics.
\<close>

theorem Stop_second_call_panics:
  "Stop (NewServer :: unit Server) =
     StopReturns (NewServer\<lparr>chDone := Some \<lparr>cap = 0, buf = [], closed = True\<rparr>\<rparr>)
   \<and> Stop ((NewServer :: unit Server)\<lparr>chDone := Some \<lparr>cap = 0, buf = [], closed = True\<rparr>\<rparr>) =
     StopPanics CloseOfClosedChannel"
  by (simp add: Stop_def NewServer_def chan_close_def make_chan_def)

text \<open>
  C3 (amended): on a server whose shutdown signal is open, \<open>Stop\<close> closes the signal and then
  returns if the live-session counter is zero and waits in \<open>Wait\<close> otherwise; a call of
  \<open>Stop\<close> on the server it leaves panics (close of a closed channel), so the signal is closed
  once and never a second time.
\<close>

theorem Stop_closes_signal_once:
  "chDone s = Some ch \<Longrightarrow> \<not> closed ch \<Longrightarrow>
   Stop s = (if wg s = 0 then StopReturns (s\<lparr>chDone := Some (ch\<lparr>closed := True\<rparr>)\<rparr>)
             else StopWaits (s\<lparr>chDone := Some (ch\<lparr>closed := True\<rparr>)\<rparr>))
   \<and> Stop (s\<lparr>chDone := Some (ch\<lparr>closed := True\<rparr>)\<rparr>) = StopPanics CloseOfClosedChannel"
  by (simp add: Stop_def chan_close_def)

theorem Stop_closes_signal_once_witness:
  "chDone ((NewServer :: unit Server)\<lparr>wg := 2\<rparr>) = Some (make_chan 0)
   \<and> \<not> closed (make_chan 0 :: bool chan)
   \<and> Stop ((NewServer :: unit Server)\<lparr>wg := 2\<rparr>) =
       StopWaits (NewServer\<lparr>wg := 2, chDone := Some \<lparr>cap = 0, buf = [], closed = True\<rparr>\<rparr>)
   \<and> Stop ((NewServer :: unit Server)\<lparr>wg := 2, chDone := Some \<lparr>cap = 0, buf = [], closed = True\<rparr>\<rparr>) =
       StopPanics CloseOfClosedChannel"
  using Stop_closes_signal_once [of "(NewServer :: unit Server)\<lparr>wg := 2\<rparr>" "make_chan 0"]
  by (simp add: NewServer_def make_chan_def)

text \<open>
  C8 (the code departs from it): \<open>ListenAndServeTLS\<close> with the empty address listens on the
  default LDAPS port 636.  The address the code puts in is \<open>:686\<close>: whatever the certificate
  files, the options and the answer of \<open>tls.Listen\<close>, the listen call that follows the
  loading of the key pair is made on \<open>:686\<close>.
\<close>

theorem ListenAndServeTLS_empty_address_686:
  "take 2 (fst (ListenAndServeTLS s [] certFile keyFile ch options (\<lambda>c k. None) listen ins)) =
     [LoadX509KeyPair certFile keyFile, TlsListen '':686'']"
  by (simp add: ListenAndServeTLS_def prepend_def Let_def split: sum.splits)

text \<open>
  C9: entering the accept loop with no handler registered is fatal.  When the handler is
  still nil after the options have run, \<open>serve\<close> logs, panics and (deferred) closes the
  listener, and \<open>Accept\<close> is never called; so do \<open>ListenAndServe\<close> and
  \<open>ListenAndServeTLS\<close> once they have bound the listener.
\<close>

theorem serve_without_handler_panics:
  "Handler (fold (\<lambda>option s. option s) options (s\<lparr>Listener := Some l\<rparr>)) = None \<Longrightarrow>
   Server_serve (fold (\<lambda>option s. option s) options (s\<lparr>Listener := Some l\<rparr>)) ins =
     ([SrvLog LogNoHandler, ListenerClose], Panicked NoHandlerDefined)
   \<and> (listen addr = Inr l \<longrightarrow>
        ListenAndServe s addr ch options listen ins =
          ([NetListen addr] @ (if ch then [ChClose] else []) @
           [SrvLog (LogListening addr), SrvLog LogNoHandler, ListenerClose],
           Panicked NoHandlerDefined))
   \<and> (load certFile keyFile = None \<and> listen (if addr = [] then '':686'' else addr) = Inr l \<longrightarrow>
        ListenAndServeTLS s addr certFile keyFile ch options load listen ins =
          ([LoadX509KeyPair certFile keyFile, TlsListen (if addr = [] then '':686'' else addr)] @
           (if ch then [ChClose] else []) @
           [SrvLog (LogListening (if addr = [] then '':686'' else addr)),
            SrvLog LogNoHandler, ListenerClose],
           Panicked NoHandlerDefined))"
  by (simp add: Server_serve_def ListenAndServe_def ListenAndServeTLS_def prepend_def Let_def)

theorem serve_without_handler_panics_witness:
  "Handler (fold (\<lambda>option s. option s) [\<lambda>s. s\<lparr>ReadTimeout := 30\<rparr>]
      ((NewServer :: unit Server)\<lparr>Listener := Some (TlsListener '':686'')\<rparr>)) = None
   \<and> ListenAndServe (NewServer :: unit Server) '':10389'' True [\<lambda>s. s\<lparr>ReadTimeout := 30\<rparr>]
        (\<lambda>a. if a = '':10389'' then Inr (TlsListener '':686'') else Inl ''address in use'')
        [Accept (Some (Conn 1)) None] =
       ([NetListen '':10389'', ChClose, SrvLog (LogListening '':10389''), SrvLog LogNoHandler,
         ListenerClose],
        Panicked NoHandlerDefined)
   \<and> ListenAndServeTLS (NewServer :: unit Server) [] ''cert.pem'' ''key.pem'' True
        [\<lambda>s. s\<lparr>ReadTimeout := 30\<rparr>] (\<lambda>c k. None)
        (\<lambda>a. Inr (TlsListener '':686'')) [Accept (Some (Conn 1)) None] =
       ([LoadX509KeyPair ''cert.pem'' ''key.pem'', TlsListen '':686'', ChClose,
         SrvLog (LogListening '':686''), SrvLog LogNoHandler, ListenerClose],
        Panicked NoHandlerDefined)"
  using serve_without_handler_panics
    [where options = "[\<lambda>s. s\<lparr>ReadTimeout := 30\<rparr>]" and s = "NewServer :: unit Server"
       and l = "TlsListener '':686''" and ins = "[Accept (Some (Conn 1)) None]"
       and listen = "\<lambda>a. if a = '':10389'' then Inr (TlsListener '':686'') else Inl ''address in use''"
       and addr = "'':10389''" and ch = True and load = "\<lambda>c k. Some ''unused''"]
    serve_without_handler_panics
    [where options = "[\<lambda>s. s\<lparr>ReadTimeout := 30\<rparr>]" and s = "NewServer :: unit Server"
       and l = "TlsListener '':686''" and ins = "[Accept (Some (Conn 1)) None]"
       and listen = "\<lambda>a. Inr (TlsListener '':686'')"
       and addr = "[]" and ch = True and load = "\<lambda>c k. None"
       and certFile = "''cert.pem''" and keyFile = "''key.pem''"]
  by (simp add: NewServer_def)

section \<open>Properties of the session\<close>

text \<open>What a handler invocation does with its response writer, as sends.\<close>

lemma ServeLDAP_sends:
  "ServeLDAP h w m =
     map (\<lambda>call. Send (rw_chanOut w)
            (VMsg \<lparr>messageID = rw_messageID w,
                   protocolOp = (case call of CallWrite po \<Rightarrow> po
                                 | CallWriteMessage_rw x \<Rightarrow> protocolOp x)\<rparr>)) (h m)"
proof -
  have one: "wcall_actions w call =
      [Send (rw_chanOut w)
         (VMsg \<lparr>messageID = rw_messageID w,
                protocolOp = (case call of CallWrite po \<Rightarrow> po
                              | CallWriteMessage_rw x \<Rightarrow> protocolOp x)\<rparr>)]" for call
    by (cases call)
       (simp_all add: rw_Write_def rw_WriteMessage_def NewLDAPMessageWithProtocolOp_def
          SetMessageID_def)
  have "concat (map (wcall_actions w) xs) =
      map (\<lambda>call. Send (rw_chanOut w)
            (VMsg \<lparr>messageID = rw_messageID w,
                   protocolOp = (case call of CallWrite po \<Rightarrow> po
                                 | CallWriteMessage_rw x \<Rightarrow> protocolOp x)\<rparr>)) xs" for xs
    by (induction xs) (simp_all add: one)
  then show ?thesis
    by (simp add: ServeLDAP_def)
qed

text \<open>
  C4: for every sequence of decoded requests without an unbind, the read loop does, for each
  request in turn: the deadlines, the read, the count in the wait group, and then, if the
  request is the extended request named \<open>NoticeOfStartTLS\<close>, the operations of
  \<open>ProcessRequestMessage\<close> themselves, in its own program before its next turn (and so
  before its next read); for every other request it starts a goroutine that runs
  \<open>ProcessRequestMessage\<close>.  Processing a request reads no packet and starts no goroutine.
\<close>

theorem startTLS_processed_by_read_loop:
  "list_all (\<lambda>m. protocolOp m \<noteq> UnbindRequest) ms \<Longrightarrow>
   client_serve_loop k s c n (map Decoded ms) =
     (concat
        (map (\<lambda>(j, m).
                read_deadlines s @ [ReadPacket (Decoded m), WgAdd] @
                (if is_startTLS k m then ProcessRequestMessage s c m j
                 else [Go Worker (ProcessRequestMessage s c m j)]))
           (enumerate n ms)) @
      read_deadlines s,
      Pending)
   \<and> (\<forall>inp m j. ReadPacket inp \<notin> set (ProcessRequestMessage s c m j))
   \<and> (\<forall>r q m j. Go r q \<notin> set (ProcessRequestMessage s c m j))"
proof -
  assume "list_all (\<lambda>m. protocolOp m \<noteq> UnbindRequest) ms"
  then have "client_serve_loop k s c n (map Decoded ms) =
     (concat
        (map (\<lambda>(j, m).
                read_deadlines s @ [ReadPacket (Decoded m), WgAdd] @
                (if is_startTLS k m then ProcessRequestMessage s c m j
                 else [Go Worker (ProcessRequestMessage s c m j)]))
           (enumerate n ms)) @
      read_deadlines s,
      Pending)"
  proof (induction ms arbitrary: n)
    case Nil
    then show ?case by simp
  next
    case (Cons m ms)
    then show ?case by (simp add: prepend_def)
  qed
  moreover have "ReadPacket inp \<notin> set (ProcessRequestMessage s c m j)" for inp m j
    by (auto simp add: ProcessRequestMessage_def registerRequest_def unregisterRequest_def
        ServeLDAP_sends Let_def split: option.splits)
  moreover have "Go r q \<notin> set (ProcessRequestMessage s c m j)" for r q m j
    by (auto simp add: ProcessRequestMessage_def registerRequest_def unregisterRequest_def
        ServeLDAP_sends Let_def split: option.splits)
  ultimately show ?thesis by blast
qed

theorem startTLS_processed_by_read_loop_witness:
  "list_all (\<lambda>m. protocolOp m \<noteq> UnbindRequest)
     [\<lparr>messageID = 3, protocolOp = ExtendedRequest ''1.3.6.1.4.1.1466.20037''\<rparr>,
      \<lparr>messageID = 4, protocolOp = OtherOp 0\<rparr>]
   \<and> client_serve_loop
        \<lparr>NoticeOfStartTLS = ''1.3.6.1.4.1.1466.20037'',
         NoticeOfDisconnection = ''1.3.6.1.4.1.1466.20036'', LDAPResultUnwillingToPerform = 53\<rparr>
        (NewServer\<lparr>Handler := Some (\<lambda>m. [CallWrite (ExtendedResponse 0 [] [])])\<rparr>)
        \<lparr>numero = 1, rwc = Conn 1\<rparr> 0
        [Decoded \<lparr>messageID = 3, protocolOp = ExtendedRequest ''1.3.6.1.4.1.1466.20037''\<rparr>,
         Decoded \<lparr>messageID = 4, protocolOp = OtherOp 0\<rparr>] =
       ([ReadPacket
           (Decoded \<lparr>messageID = 3, protocolOp = ExtendedRequest ''1.3.6.1.4.1.1466.20037''\<rparr>),
         WgAdd, MakeChan (DoneOf 0) 2, Lock,
         Store 3
           \<lparr>m_LDAPMessage =
              \<lparr>messageID = 3, protocolOp = ExtendedRequest ''1.3.6.1.4.1.1466.20037''\<rparr>,
            Done = DoneOf 0, Client = 1\<rparr>,
         Unlock, Send ChanOut (VMsg \<lparr>messageID = 3, protocolOp = ExtendedResponse 0 [] []\<rparr>),
         Lock, Delete 3, Unlock, WgDone,
         ReadPacket (Decoded \<lparr>messageID = 4, protocolOp = OtherOp 0\<rparr>), WgAdd,
         Go Worker
           [MakeChan (DoneOf 1) 2, Lock,
            Store 4 \<lparr>m_LDAPMessage = \<lparr>messageID = 4, protocolOp = OtherOp 0\<rparr>,
                     Done = DoneOf 1, Client = 1\<rparr>,
            Unlock, Send ChanOut (VMsg \<lparr>messageID = 4, protocolOp = ExtendedResponse 0 [] []\<rparr>),
            Lock, Delete 4, Unlock, WgDone]],
        Pending)"
  using startTLS_processed_by_read_loop
    [where ms = "[\<lparr>messageID = 3, protocolOp = ExtendedRequest ''1.3.6.1.4.1.1466.20037''\<rparr>,
                  \<lparr>messageID = 4, protocolOp = OtherOp 0\<rparr>]"
       and k = "\<lparr>NoticeOfStartTLS = ''1.3.6.1.4.1.1466.20037'',
                 NoticeOfDisconnection = ''1.3.6.1.4.1.1466.20036'',
                 LDAPResultUnwillingToPerform = 53\<rparr>"
       and s = "NewServer\<lparr>Handler := Some (\<lambda>m. [CallWrite (ExtendedResponse 0 [] [])])\<rparr>"
       and c = "\<lparr>numero = 1, rwc = Conn 1\<rparr>" and n = 0]
  by (simp add: is_startTLS_def read_deadlines_def NewServer_def enumerate_eq_zip
      ProcessRequestMessage_def registerRequest_def unregisterRequest_def ServeLDAP_sends)

text \<open>
  C5: \<open>Write\<close> and \<open>WriteMessage\<close> both put the writer's identifier on the envelope and then
  send it on the writer's queue; in a handler invocation the writer's identifier is the one
  of the request and its queue is the session's \<open>chanOut\<close>, so every envelope a handler
  enqueues carries the identifier of its request, whatever identifier the handler gave it.
  The send blocks: on the queue as \<open>serve\<close> makes it (capacity 0) it completes exactly when
  a goroutine waits in \<open>range c.chanOut\<close>.
\<close>

theorem response_writer_stamps_request_id:
  "rw_Write w po = [Send (rw_chanOut w) (VMsg \<lparr>messageID = rw_messageID w, protocolOp = po\<rparr>)]
   \<and> rw_WriteMessage w m = [Send (rw_chanOut w) (VMsg (m\<lparr>messageID := rw_messageID w\<rparr>))]
   \<and> ProcessRequestMessage (s\<lparr>Handler := Some h\<rparr>) c message n =
       MakeChan (DoneOf n) 2 #
       registerRequest \<lparr>m_LDAPMessage = message, Done = DoneOf n, Client = numero c\<rparr> @
       map (\<lambda>call. Send ChanOut
              (VMsg \<lparr>messageID = messageID message,
                     protocolOp = (case call of CallWrite po \<Rightarrow> po
                                   | CallWriteMessage_rw x \<Rightarrow> protocolOp x)\<rparr>))
         (h \<lparr>m_LDAPMessage = message, Done = DoneOf n, Client = numero c\<rparr>) @
       unregisterRequest \<lparr>m_LDAPMessage = message, Done = DoneOf n, Client = numero c\<rparr> @
       [WgDone]
   \<and> (chans wd ChanOut = Some (make_chan 0) \<longrightarrow>
        (exec alt (Send ChanOut (VMsg m)) p i wd = None) = (receiver (threads wd) = None))"
  by (auto simp add: rw_Write_def rw_WriteMessage_def NewLDAPMessageWithProtocolOp_def
        SetMessageID_def ProcessRequestMessage_def ServeLDAP_sends Let_def chan_send_def
        make_chan_def split: option.splits)

theorem response_writer_stamps_request_id_witness:
  "chans (session []) ChanOut = None
   \<and> chans ((session [Send ChanOut (VMsg \<lparr>messageID = 7, protocolOp = OtherOp 1\<rparr>)])
        \<lparr>chans := (\<lambda>v. Some (make_chan 0))\<rparr>) ChanOut = Some (make_chan 0)
   \<and> exec False (Send ChanOut (VMsg \<lparr>messageID = 7, protocolOp = OtherOp 1\<rparr>)) [] 0
        ((session [Send ChanOut (VMsg \<lparr>messageID = 7, protocolOp = OtherOp 1\<rparr>)])
           \<lparr>chans := (\<lambda>v. Some (make_chan 0))\<rparr>) = None
   \<and> rw_WriteMessage \<lparr>rw_chanOut = ChanOut, rw_messageID = 7\<rparr>
        \<lparr>messageID = 99, protocolOp = OtherOp 1\<rparr> =
       [Send ChanOut (VMsg \<lparr>messageID = 7, protocolOp = OtherOp 1\<rparr>)]"
  using response_writer_stamps_request_id
    [where wd = "(session [Send ChanOut (VMsg \<lparr>messageID = 7, protocolOp = OtherOp 1\<rparr>)])
                  \<lparr>chans := (\<lambda>v. Some (make_chan 0))\<rparr>"
       and alt = False and m = "\<lparr>messageID = 7, protocolOp = OtherOp 1\<rparr>" and p = "[]" and i = 0
       and w = "\<lparr>rw_chanOut = ChanOut, rw_messageID = 7\<rparr>"]
  by (simp add: session_def rw_WriteMessage_def SetMessageID_def)

text \<open>
  C7, as the claim states it, fails: a request with identifier 1 is dispatched, the unbind is
  read next and the read loop returns; teardown waits for the handler of request 1, which
  then writes its response.  The response goes out after the unbind was read, and before the
  connection is closed.
\<close>

theorem response_written_after_unbind:
  "map snd
     (filter (\<lambda>e. case snd e of ReadPacket x \<Rightarrow> True | CallWriteMessage m \<Rightarrow> True
                   | RwcClose \<Rightarrow> True | _ \<Rightarrow> False)
        (events
           (run (replicate 16 (Run 0) @ replicate 9 (Run 3) @ [Run 1] @ replicate 2 (Run 0) @
                 replicate 2 (Run 1) @ replicate 4 (Run 0))
              (session
                 (fst (client_serve
                         \<lparr>NoticeOfStartTLS = ''1.3.6.1.4.1.1466.20037'',
                          NoticeOfDisconnection = ''1.3.6.1.4.1.1466.20036'',
                          LDAPResultUnwillingToPerform = 53\<rparr>
                         (NewServer\<lparr>Handler := Some (\<lambda>m. [CallWrite (OtherOp 1)])\<rparr>)
                         \<lparr>numero = 1, rwc = Conn 1\<rparr>
                         [Decoded \<lparr>messageID = 1, protocolOp = OtherOp 0\<rparr>,
                          Decoded \<lparr>messageID = 2, protocolOp = UnbindRequest\<rparr>]))))))
   = [ReadPacket (Decoded \<lparr>messageID = 1, protocolOp = OtherOp 0\<rparr>),
      ReadPacket (Decoded \<lparr>messageID = 2, protocolOp = UnbindRequest\<rparr>),
      CallWriteMessage \<lparr>messageID = 1, protocolOp = OtherOp 1\<rparr>,
      RwcClose]"
  by (simp add: client_serve_def client_close_def session_def numeral_eq_Suc step_def
      run_thread_def set_prog_def spawn_def crash_def chan_close_def chan_send_def chan_recv_def
      make_chan_def NewServer_def read_deadlines_def prepend_def is_startTLS_def
      ProcessRequestMessage_def registerRequest_def unregisterRequest_def ServeLDAP_def
      rw_Write_def NewLDAPMessageWithProtocolOp_def SetMessageID_def write_pump_def
      shutdown_watcher_def Abandon_def sent_def Let_def)

text \<open>
  C7 (amended): when the read loop decodes an unbind request it returns at once.  After any
  requests that were not unbinds, the loop's operations with the unbind are those without
  it, then the read of the unbind, and the loop returns; in a session whose connection was
  admitted (no hook, or a hook that returns nil) the program is then the program without the
  unbind, the read of the unbind, and teardown: nothing is counted, registered, dispatched
  or sent for the unbind, and what the peer sends after it is never read.  (Responses of
  requests dispatched before it can still be written while teardown waits for their
  handlers.)  In a session whose connection the hook refused nothing is read at all.
\<close>

theorem unbind_ends_read_loop:
  "list_all (\<lambda>m. protocolOp m \<noteq> UnbindRequest) pre \<Longrightarrow> protocolOp u = UnbindRequest \<Longrightarrow>
   client_serve_loop k s c n (map Decoded pre @ Decoded u # rest) =
     (fst (client_serve_loop k s c n (map Decoded pre)) @ [ReadPacket (Decoded u)], Returned)
   \<and> client_serve k s c (map Decoded pre @ Decoded u # rest) =
     (case (case OnNewConnection s of None \<Rightarrow> None | Some onc \<Rightarrow> onc (rwc c)) of
        None \<Rightarrow>
          (fst (client_serve k s c (map Decoded pre)) @ [ReadPacket (Decoded u)] @ client_close,
           Returned)
      | Some err \<Rightarrow> ([MakeChan Closing 0, Log (LogHookError err)] @ client_close, Returned))"
proof -
  assume p: "list_all (\<lambda>m. protocolOp m \<noteq> UnbindRequest) pre"
    and u: "protocolOp u = UnbindRequest"
  have loop: "client_serve_loop k s c n (map Decoded pre @ Decoded u # rest) =
       (fst (client_serve_loop k s c n (map Decoded pre)) @ [ReadPacket (Decoded u)], Returned)
       \<and> snd (client_serve_loop k s c n (map Decoded pre)) = Pending" for n
    using p
  proof (induction pre arbitrary: n)
    case Nil
    then show ?case using u by simp
  next
    case (Cons m pre)
    then show ?case by (simp add: prepend_def)
  qed
  have "client_serve k s c (map Decoded pre @ Decoded u # rest) =
     (case (case OnNewConnection s of None \<Rightarrow> None | Some onc \<Rightarrow> onc (rwc c)) of
        None \<Rightarrow>
          (fst (client_serve k s c (map Decoded pre)) @ [ReadPacket (Decoded u)] @ client_close,
           Returned)
      | Some err \<Rightarrow> ([MakeChan Closing 0, Log (LogHookError err)] @ client_close, Returned))"
    using loop [of 0]
    by (cases "client_serve_loop k s c 0 (map Decoded pre)")
       (simp add: client_serve_def split: option.splits)
  with loop [of n] show ?thesis by simp
qed

theorem unbind_ends_read_loop_witness:
  "list_all (\<lambda>m. protocolOp m \<noteq> UnbindRequest) [\<lparr>messageID = 1, protocolOp = OtherOp 0\<rparr>]
   \<and> protocolOp \<lparr>messageID = 2, protocolOp = UnbindRequest\<rparr> = UnbindRequest
   \<and> client_serve_loop
        \<lparr>NoticeOfStartTLS = ''1.3.6.1.4.1.1466.20037'',
         NoticeOfDisconnection = ''1.3.6.1.4.1.1466.20036'', LDAPResultUnwillingToPerform = 53\<rparr>
        (NewServer\<lparr>OnNewConnection := Some (\<lambda>x. None),
                   Handler := Some (\<lambda>m. [CallWrite (OtherOp 1)])\<rparr>)
        \<lparr>numero = 1, rwc = Conn 1\<rparr> 0
        [Decoded \<lparr>messageID = 1, protocolOp = OtherOp 0\<rparr>,
         Decoded \<lparr>messageID = 2, protocolOp = UnbindRequest\<rparr>,
         Decoded \<lparr>messageID = 3, protocolOp = OtherOp 0\<rparr>] =
       ([ReadPacket (Decoded \<lparr>messageID = 1, protocolOp = OtherOp 0\<rparr>), WgAdd,
         Go Worker
           (ProcessRequestMessage
              (NewServer\<lparr>OnNewConnection := Some (\<lambda>x. None),
                         Handler := Some (\<lambda>m. [CallWrite (OtherOp 1)])\<rparr>)
              \<lparr>numero = 1, rwc = Conn 1\<rparr> \<lparr>messageID = 1, protocolOp = OtherOp 0\<rparr> 0),
         ReadPacket (Decoded \<lparr>messageID = 2, protocolOp = UnbindRequest\<rparr>)],
        Returned)
   \<and> client_serve
        \<lparr>NoticeOfStartTLS = ''1.3.6.1.4.1.1466.20037'',
         NoticeOfDisconnection = ''1.3.6.1.4.1.1466.20036'', LDAPResultUnwillingToPerform = 53\<rparr>
        (NewServer\<lparr>OnNewConnection := Some (\<lambda>x. None),
                   Handler := Some (\<lambda>m. [CallWrite (OtherOp 1)])\<rparr>)
        \<lparr>numero = 1, rwc = Conn 1\<rparr>
        [Decoded \<lparr>messageID = 1, protocolOp = OtherOp 0\<rparr>,
         Decoded \<lparr>messageID = 2, protocolOp = UnbindRequest\<rparr>,
         Decoded \<lparr>messageID = 3, protocolOp = OtherOp 0\<rparr>] =
       (fst (client_serve
               \<lparr>NoticeOfStartTLS = ''1.3.6.1.4.1.1466.20037'',
                NoticeOfDisconnection = ''1.3.6.1.4.1.1466.20036'',
                LDAPResultUnwillingToPerform = 53\<rparr>
               (NewServer\<lparr>OnNewConnection := Some (\<lambda>x. None),
                          Handler := Some (\<lambda>m. [CallWrite (OtherOp 1)])\<rparr>)
               \<lparr>numero = 1, rwc = Conn 1\<rparr>
               [Decoded \<lparr>messageID = 1, protocolOp = OtherOp 0\<rparr>]) @
        [ReadPacket (Decoded \<lparr>messageID = 2, protocolOp = UnbindRequest\<rparr>)] @ client_close,
        Returned)"
  using unbind_ends_read_loop
    [where s = "NewServer\<lparr>OnNewConnection := Some (\<lambda>x. None),
                          Handler := Some (\<lambda>m. [CallWrite (OtherOp 1)])\<rparr>"
       and pre = "[\<lparr>messageID = 1, protocolOp = OtherOp 0\<rparr>]"
       and u = "\<lparr>messageID = 2, protocolOp = UnbindRequest\<rparr>"
       and rest = "[Decoded \<lparr>messageID = 3, protocolOp = OtherOp 0\<rparr>]"
       and c = "\<lparr>numero = 1, rwc = Conn 1\<rparr>"
       and n = 0
       and k = "\<lparr>NoticeOfStartTLS = ''1.3.6.1.4.1.1466.20037'',
                 NoticeOfDisconnection = ''1.3.6.1.4.1.1466.20036'',
                 LDAPResultUnwillingToPerform = 53\<rparr>"]
  by (simp add: NewServer_def read_deadlines_def prepend_def is_startTLS_def)

text \<open>
  C10: the write pump looks at none of the errors of encoding, writing and flushing.  As long
  as the queue is not closed and drained it is still running, and what it has done is, for
  each envelope received, the encoding, the buffered write of the encoding and the flush,
  nothing else (nothing logged), whatever the three errors were; it returns at the first
  receive that finds the queue closed and drained, closing \<open>writeDone\<close>.
\<close>

theorem write_pump_ignores_errors:
  "QueueClosed \<notin> set ins \<Longrightarrow>
   write_pump_run ins =
     (concat (map (\<lambda>i. case i of Received m r \<Rightarrow> [EncodeMsg m, BwWrite (wa_data r), BwFlush]
                        | QueueClosed \<Rightarrow> []) ins), Pending)
   \<and> write_pump_run (ins @ QueueClosed # rest) =
     (concat (map (\<lambda>i. case i of Received m r \<Rightarrow> [EncodeMsg m, BwWrite (wa_data r), BwFlush]
                        | QueueClosed \<Rightarrow> []) ins) @ [CloseWriteDone], Returned)"
proof (induction ins)
  case Nil
  then show ?case by simp
next
  case (Cons i ins)
  then show ?case by (cases i) (simp_all add: prepend_def writeMessage_def)
qed

theorem write_pump_ignores_errors_witness:
  "QueueClosed \<notin> set
     [Received \<lparr>messageID = 1, protocolOp = OtherOp 1\<rparr>
        \<lparr>wa_data = [], wa_encode_err = Some (OtherError ''encode''),
         wa_write_err = Some (OpError True), wa_flush_err = Some EOF\<rparr>,
      Received \<lparr>messageID = 2, protocolOp = OtherOp 1\<rparr>
        \<lparr>wa_data = ''0'', wa_encode_err = None, wa_write_err = None, wa_flush_err = None\<rparr>]
   \<and> write_pump_run
       [Received \<lparr>messageID = 1, protocolOp = OtherOp 1\<rparr>
          \<lparr>wa_data = [], wa_encode_err = Some (OtherError ''encode''),
           wa_write_err = Some (OpError True), wa_flush_err = Some EOF\<rparr>,
        Received \<lparr>messageID = 2, protocolOp = OtherOp 1\<rparr>
          \<lparr>wa_data = ''0'', wa_encode_err = None, wa_write_err = None, wa_flush_err = None\<rparr>,
        QueueClosed] =
      ([EncodeMsg \<lparr>messageID = 1, protocolOp = OtherOp 1\<rparr>, BwWrite [], BwFlush,
        EncodeMsg \<lparr>messageID = 2, protocolOp = OtherOp 1\<rparr>, BwWrite ''0'', BwFlush,
        CloseWriteDone],
       Returned)"
  using write_pump_ignores_errors
    [where ins = "[Received \<lparr>messageID = 1, protocolOp = OtherOp 1\<rparr>
          \<lparr>wa_data = [], wa_encode_err = Some (OtherError ''encode''),
           wa_write_err = Some (OpError True), wa_flush_err = Some EOF\<rparr>,
        Received \<lparr>messageID = 2, protocolOp = OtherOp 1\<rparr>
          \<lparr>wa_data = ''0'', wa_encode_err = None, wa_write_err = None, wa_flush_err = None\<rparr>]"
       and rest = "[]"]
  by simp

subsection \<open>Teardown after a refused connection\<close>

lemma stuck_exec:
  assumes "list_all harmless xs"
    and "threads w = [(Reader, xs @ [Close ChanOut, Recv WriteDone, RwcClose, Log LogClosed, SrvWgDone])]"
    and "chans w ChanOut = None" "requestList w = None" "\<not> rwc_closed w" "swg w = 1"
    and "xs @ [Close ChanOut, Recv WriteDone, RwcClose, Log LogClosed, SrvWgDone] = a # p"
    and "exec alt a p 0 w = Some w'"
  shows "stuck w'"
proof (cases xs)
  case Nil
  with assms show ?thesis
    by (auto simp: stuck_def crash_def chan_close_def intro!: exI [of _ "[]"])
next
  case (Cons x xs')
  with assms have a: "a = x" "harmless a" "list_all harmless xs'"
    and p: "p = xs' @ [Close ChanOut, Recv WriteDone, RwcClose, Log LogClosed, SrvWgDone]"
    by auto
  have keep: "stuck (w\<lparr>crashed := Some e\<rparr>)" for e
    using assms(1-6) by (auto simp: stuck_def)
  show ?thesis
    using a(2)
  proof (cases a)
    case (Close v)
    show ?thesis
    proof (cases "chan_close (chans w v)")
      case (Panics e)
      with Close assms(8) keep [of e] show ?thesis by (simp add: crash_def)
    next
      case Blocks
      with Close assms(8) show ?thesis by simp
    next
      case (Proceeds ch)
      with Close a assms p show ?thesis
        by (auto simp: stuck_def set_prog_def intro!: exI [of _ xs'])
    qed
  next
    case Unlock
    with a assms p keep [of UnlockOfUnlockedMutex] show ?thesis
      by (cases "mutex w") (auto simp: stuck_def set_prog_def crash_def intro!: exI [of _ xs'])
  qed (use a assms p in \<open>auto simp: stuck_def set_prog_def spawn_def split: if_splits
         intro!: exI [of _ xs']\<close>)
qed

lemma stuck_step: "stuck w \<Longrightarrow> step pk w = Some w' \<Longrightarrow> stuck w'"
proof (cases pk)
  case (Run i)
  assume s: "stuck w" and st: "step pk w = Some w'"
  then obtain xs where n: "list_all harmless xs"
    "threads w = [(Reader, xs @ [Close ChanOut, Recv WriteDone, RwcClose, Log LogClosed, SrvWgDone])]"
    by (auto simp: stuck_def)
  from st Run n obtain a p w0 where "i = 0"
    "xs @ [Close ChanOut, Recv WriteDone, RwcClose, Log LogClosed, SrvWgDone] = a # p"
    "exec False a p 0 w = Some w0" "w' = w0\<lparr>events := events w0 @ [(0, a)]\<rparr>"
    by (auto simp: step_def run_thread_def split: if_splits list.splits)
  with stuck_exec [OF n _ _ _ _ this(2,3)] s show ?thesis
    by (auto simp: stuck_def)
next
  case (RunAlt i)
  assume s: "stuck w" and st: "step pk w = Some w'"
  then obtain xs where n: "list_all harmless xs"
    "threads w = [(Reader, xs @ [Close ChanOut, Recv WriteDone, RwcClose, Log LogClosed, SrvWgDone])]"
    by (auto simp: stuck_def)
  from st RunAlt n obtain a p w0 where "i = 0"
    "xs @ [Close ChanOut, Recv WriteDone, RwcClose, Log LogClosed, SrvWgDone] = a # p"
    "exec True a p 0 w = Some w0" "w' = w0\<lparr>events := events w0 @ [(0, a)]\<rparr>"
    by (auto simp: step_def run_thread_def split: if_splits list.splits)
  with stuck_exec [OF n _ _ _ _ this(2,3)] s show ?thesis
    by (auto simp: stuck_def)
next
  case StopCalled
  assume "stuck w" "step pk w = Some w'"
  with StopCalled show ?thesis
    by (auto simp: step_def stuck_def crash_def split: if_splits effect.splits)
qed

lemma stuck_run: "stuck w \<Longrightarrow> stuck (run pks w)"
proof (induction pks arbitrary: w)
  case Nil
  then show ?case by simp
next
  case (Cons pk pks)
  then show ?case by (cases "step pk w") (auto intro: stuck_step)
qed

text \<open>
  C2 (the code departs from it): teardown performs its eight steps in order, up to closing
  the connection and decrementing the server's session counter.  \<open>close\<close> is deferred at
  the top of \<open>serve\<close>, before the channels are made; when the connection hook refuses the
  connection, \<open>serve\<close> returns at once and \<open>close\<close> reaches \<open>close(c.chanOut)\<close> with the
  nil channel.  Run on its own the session panics there, and under no schedule at all is
  the connection closed or the server's counter decremented.
\<close>

theorem close_after_refused_connection_panics:
  "crashed (run (replicate 10 (Run 0))
       (session (fst (client_serve k (s\<lparr>OnNewConnection := Some (\<lambda>c. Some err)\<rparr>) c ins))))
     = Some CloseOfNilChannel
   \<and> \<not> rwc_closed (run pks
       (session (fst (client_serve k (s\<lparr>OnNewConnection := Some (\<lambda>c. Some err)\<rparr>) c ins))))
   \<and> swg (run pks
       (session (fst (client_serve k (s\<lparr>OnNewConnection := Some (\<lambda>c. Some err)\<rparr>) c ins))))
     = 1"
proof -
  let ?w = "session (fst (client_serve k (s\<lparr>OnNewConnection := Some (\<lambda>c. Some err)\<rparr>) c ins))"
  have "stuck ?w"
    by (auto simp: stuck_def session_def client_serve_def client_close_def
        intro!: exI [of _ "[MakeChan Closing 0, Log (LogHookError err), Log LogClosing,
          Close Closing, SetReadDeadlineSoon, Lock, GoAbandonAll, Unlock, WgWait]"])
  then have "stuck (run pks ?w)" by (rule stuck_run)
  moreover have "crashed (run (replicate 10 (Run 0)) ?w) = Some CloseOfNilChannel"
    by (simp add: client_serve_def client_close_def session_def numeral_eq_Suc step_def
      run_thread_def set_prog_def spawn_def crash_def chan_close_def make_chan_def)
  ultimately show ?thesis by (simp add: stuck_def)
qed

section \<open>No response is lost at teardown\<close>

subsection \<open>Every goroutine keeps a program of its kind\<close>

lemma allowed_mono: "allowed b g a \<Longrightarrow> allowed b True a"
  by (cases a) auto

lemma rd_ok_mono: "rd_ok b g p \<Longrightarrow> rd_ok b True p"
  by (cases p) (auto intro: allowed_mono)

lemma map_fst_update: "i < length ts \<Longrightarrow> map fst (ts[i := (fst (ts ! i), p)]) = map fst ts"
  by (simp add: map_update list_update_same_conv)

lemma unique_two:
  "count_list (map fst ts) R \<le> 1 \<Longrightarrow> i < length ts \<Longrightarrow> j < length ts \<Longrightarrow>
   fst (ts ! i) = R \<Longrightarrow> fst (ts ! j) = R \<Longrightarrow> i = j"
proof (induction ts arbitrary: i j)
  case Nil
  then show ?case by simp
next
  case (Cons t ts)
  show ?case
  proof (cases "fst t = R")
    case True
    with Cons.prems(1) have z: "count_list (map fst ts) R = 0" by simp
    then have "R \<notin> set (map fst ts)" by (simp add: count_list_0_iff)
    then have no: "\<And>k. k < length ts \<Longrightarrow> fst (ts ! k) \<noteq> R"
      by (metis length_map nth_map nth_mem)
    from Cons.prems no show ?thesis
      by (cases i; cases j) auto
  next
    case False
    with Cons.prems have c: "count_list (map fst ts) R \<le> 1" by simp
    from False Cons.prems obtain i' j' where ij: "i = Suc i'" "j = Suc j'"
      by (cases i; cases j) auto
    with Cons.prems Cons.IH [OF c, of i' j'] show ?thesis by simp
  qed
qed

text \<open>the threads after an update at i: each is the new one or an old one at another index\<close>
lemma in_set_update_other:
  "t \<in> set (ts[i := x]) \<Longrightarrow> t = x \<or> (\<exists>j. j < length ts \<and> j \<noteq> i \<and> t = ts ! j)"
  by (metis in_set_conv_nth length_list_update nth_list_update_eq nth_list_update_neq)

lemma tinv_advance:
  "tinv b (r, a # p) \<Longrightarrow> \<not> is_go_pump a \<Longrightarrow> tinv b (r, p)"
  by (cases r) (auto simp: tinv_def pump_shape_def intro: rd_ok_mono)

lemma tinv_plain_b: "r \<noteq> Reader \<Longrightarrow> tinv b (r, q) = tinv b' (r, q)"
  by (cases r) (auto simp: tinv_def)

lemma shape_update:
  assumes "shape ts" "i < length ts" "fst (ts ! i) = r" "tinv (has_pump ts) (r, p)"
  shows "shape (ts[i := (r, p)])"
proof -
  have m: "map fst (ts[i := (r, p)]) = map fst ts"
    using assms(2,3) map_fst_update [of i ts p] by simp
  show ?thesis
    using assms m
    by (auto simp: shape_def unique_def has_pump_def list_all_iff
        dest!: set_update_subset_insert [THEN subsetD])
qed

lemma shape_nth: "shape ts \<Longrightarrow> i < length ts \<Longrightarrow> tinv (has_pump ts) (ts ! i)"
  by (simp add: shape_def list_all_iff)

lemma shape_advance:
  assumes "shape ts" "i < length ts" "ts ! i = (r, a # p)" "\<not> is_go_pump a"
  shows "shape (ts[i := (r, p)])"
proof -
  have "tinv (has_pump ts) (r, a # p)"
    using shape_nth [OF assms(1,2)] assms(3) by simp
  then have "tinv (has_pump ts) (r, p)"
    using assms(4) by (rule tinv_advance)
  then show ?thesis
    using assms by (intro shape_update) simp_all
qed

lemma shape_spawn:
  assumes "shape ts" "list_all (\<lambda>t. fst t \<noteq> Reader \<and> fst t \<noteq> Pump \<and> list_all plain (snd t)) us"
  shows "shape (ts @ us)"
proof -
  have n: "Reader \<notin> set (map fst us)" "Pump \<notin> set (map fst us)"
    using assms(2) by (auto simp: list_all_iff)
  then have c: "count_list (map fst us) Reader = 0" "count_list (map fst us) Pump = 0"
    by (simp_all add: count_list_0_iff)
  have h: "has_pump (ts @ us) = has_pump ts"
    using n by (auto simp: has_pump_def)
  have "tinv b t" if "t \<in> set us" for t b
    using that assms(2) by (cases "fst t") (auto simp: list_all_iff tinv_def)
  then show ?thesis
    using assms(1) c h by (auto simp: shape_def unique_def list_all_iff)
qed

lemma shape_go_pump:
  assumes "shape ts" "i < length ts" "ts ! i = (r, Go Pump q # p)"
  shows "shape (ts[i := (r, p)] @ [(Pump, q)])"
proof -
  have t: "tinv (has_pump ts) (r, Go Pump q # p)"
    using shape_nth [OF assms(1,2)] assms(3) by simp
  then have r: "r = Reader"
    by (cases r) (auto simp: tinv_def pump_shape_def)
  with t have np: "\<not> has_pump ts" and q: "q = write_pump" and p: "rd_ok True False p"
    by (auto simp: tinv_def)
  have m: "map fst (ts[i := (r, p)]) = map fst ts"
    using assms(2,3) map_fst_update [of i ts p] by simp
  have others: "tinv True t" if "t \<in> set (ts[i := (r, p)])" for t
  proof -
    from in_set_update_other [OF that]
    consider "t = (r, p)" | j where "j < length ts" "j \<noteq> i" "t = ts ! j" by blast
    then show ?thesis
    proof cases
      case 1
      then show ?thesis using r p by (auto simp: tinv_def intro: rd_ok_mono)
    next
      case 2
      have "fst (ts ! j) \<noteq> Reader"
        using unique_two [of ts Reader i j] assms 2 r by (auto simp: shape_def unique_def)
      moreover have "tinv (has_pump ts) (ts ! j)"
        using shape_nth [OF assms(1) 2(1)] .
      ultimately show ?thesis
        using 2(3) tinv_plain_b [of "fst (ts ! j)" "has_pump ts" "snd (ts ! j)" True] by simp
    qed
  qed
  have c: "count_list (map fst ts) Pump = 0"
    using np by (simp add: has_pump_def count_list_0_iff)
  show ?thesis
    using assms(1) m c others q
    by (auto simp: shape_def unique_def has_pump_def list_all_iff tinv_def pump_shape_def
        write_pump_def)
qed

lemma receiver_some:
  "receiver ts = Some j \<Longrightarrow> j < length ts \<and> (\<exists>r q. ts ! j = (r, RangeWrite # q))"
proof (induction ts arbitrary: j rule: receiver.induct)
  case 1
  then show ?case by simp
next
  case (2 r p ts)
  then show ?case by simp
qed (auto split: if_splits)

lemma tinv_rangewrite:
  "tinv b (r, RangeWrite # q) \<Longrightarrow> r = Pump \<and> q = [Close WriteDone]"
  by (cases r) (auto simp: tinv_def pump_shape_def)

lemma shape_handover:
  assumes "shape ts" "j < length ts" "ts ! j = (r, RangeWrite # q)"
  shows "shape (ts[j := (r, CallWriteMessage m # RangeWrite # q)])"
proof -
  have "tinv (has_pump ts) (r, RangeWrite # q)"
    using shape_nth [OF assms(1,2)] assms(3) by simp
  from tinv_rangewrite [OF this]
  have "tinv (has_pump ts) (r, CallWriteMessage m # RangeWrite # q)"
    by (simp add: tinv_def pump_shape_def)
  then show ?thesis
    using assms by (intro shape_update) simp_all
qed

lemma tinv_select:
  "tinv b (r, SelectShutdown x y body # p) \<Longrightarrow> tinv b (r, body) \<and> tinv b (r, [])"
  by (cases r) (auto simp: tinv_def pump_shape_def)

lemma tinv_go:
  "tinv b (r, Go r' q # p) \<Longrightarrow> r' \<noteq> Pump \<Longrightarrow> r' \<noteq> Reader \<and> list_all plain q"
  by (cases r) (auto simp: tinv_def pump_shape_def)

lemma shape_exec:
  assumes s: "shape (threads w)" and i: "i < length (threads w)"
    and t: "threads w ! i = (r, a # p)" and e: "exec alt a p i w = Some w'"
  shows "shape (threads w')"
proof -
  note adv = shape_advance [OF s i t]
  have tv: "tinv (has_pump (threads w)) (r, a # p)"
    using shape_nth [OF s i] t by simp
  show ?thesis
  proof (cases a)
    case (Send v x)
    show ?thesis
    proof (cases "chan_send (chans w v) x")
      case Blocks
      with e Send obtain ch m j where j: "receiver (threads w) = Some j" and x: "x = VMsg m"
        and w': "w' = set_prog i p (set_prog j (CallWriteMessage m # snd (threads w ! j))
                         (w\<lparr>enq := enq w @ [m]\<rparr>))"
        by (auto split: option.splits chvar.splits val.splits)
      from receiver_some [OF j] obtain rj q where jl: "j < length (threads w)"
        and tj: "threads w ! j = (rj, RangeWrite # q)" by blast
      have ij: "i \<noteq> j" using t tj Send by auto
      let ?ts = "(threads w)[j := (rj, CallWriteMessage m # RangeWrite # q)]"
      have s1: "shape ?ts" using shape_handover [OF s jl tj] .
      have ti: "?ts ! i = (r, a # p)" using t ij by simp
      have il: "i < length ?ts" using i by simp
      have na: "\<not> is_go_pump a" using Send by simp
      have "shape (?ts[i := (r, p)])"
        using shape_advance [OF s1 il ti na] .
      then show ?thesis
        using w' tj t ij by (simp add: set_prog_def)
    next
      case (Proceeds ch)
      then show ?thesis using e Send adv t by (auto simp: set_prog_def)
    next
      case (Panics x)
      then show ?thesis using e Send s by (auto simp: crash_def)
    qed
  next
    case (Go r' q)
    show ?thesis
    proof (cases "r' = Pump")
      case True
      then show ?thesis
        using e Go shape_go_pump [OF s i, of r q p] t by (auto simp: set_prog_def spawn_def)
    next
      case False
      with tinv_go [of _ r r' q p] tv Go have "r' \<noteq> Reader \<and> list_all plain q" by simp
      with False have "shape ((threads w)[i := (r, p)] @ [(r', q)])"
        using adv Go by (intro shape_spawn) simp_all
      then show ?thesis using e Go t by (auto simp: set_prog_def spawn_def)
    qed
  next
    case GoAbandonAll
    have "shape ((threads w)[i := (r, p)] @ map (\<lambda>(key, m). (Abandoner, Abandon m)) l)" for l
      using adv GoAbandonAll by (intro shape_spawn) (auto simp: list_all_iff Abandon_def)
    then show ?thesis using e GoAbandonAll t by (auto simp: set_prog_def spawn_def)
  next
    case (SelectShutdown x y body)
    with tinv_select [of _ r x y body p] tv
    have "shape ((threads w)[i := (r, body)])" "shape ((threads w)[i := (r, [])])"
      using s i t by (auto intro!: shape_update)
    then show ?thesis using e SelectShutdown t by (auto simp: set_prog_def split: if_splits)
  next
    case RangeWrite
    have "shape ((threads w)[i := (r, CallWriteMessage m # RangeWrite # p)])" for m
      using shape_handover [OF s i] t RangeWrite by simp
    then show ?thesis
      using e RangeWrite adv t
      by (auto simp: set_prog_def split: effect.splits option.splits val.splits)
  qed (use e adv s t in \<open>auto simp: set_prog_def crash_def split: effect.splits option.splits if_splits\<close>)
qed

lemma run_thread_some:
  assumes "run_thread alt i w = Some w'"
  obtains r a p w0 where "i < length (threads w)" "threads w ! i = (r, a # p)"
    "exec alt a p i w = Some w0" "w' = w0\<lparr>events := events w0 @ [(i, a)]\<rparr>"
  using assms
  by (cases "threads w ! i")
     (auto simp: run_thread_def split: if_splits list.splits)

lemma shape_step: "shape (threads w) \<Longrightarrow> step pk w = Some w' \<Longrightarrow> shape (threads w')"
proof (cases pk)
  case (Run i)
  assume s: "shape (threads w)" and st: "step pk w = Some w'"
  from st Run have "run_thread False i w = Some w'" by (simp add: step_def split: if_splits)
  then show ?thesis
    using shape_exec [OF s] by (elim run_thread_some) auto
next
  case (RunAlt i)
  assume s: "shape (threads w)" and st: "step pk w = Some w'"
  from st RunAlt have "run_thread True i w = Some w'" by (simp add: step_def split: if_splits)
  then show ?thesis
    using shape_exec [OF s] by (elim run_thread_some) auto
next
  case StopCalled
  assume "shape (threads w)" "step pk w = Some w'"
  with StopCalled show ?thesis
    by (auto simp: step_def crash_def split: if_splits effect.splits)
qed


lemma has_pump_update: "i < length ts \<Longrightarrow> fst (ts ! i) = r \<Longrightarrow> has_pump (ts[i := (r, p)]) = has_pump ts"
  using map_fst_update [of i ts p] by (auto simp: has_pump_def)

text \<open>the unique thread of a role moves; the others keep what they had\<close>
lemma list_all_update_role:
  assumes "unique R ts" "i < length ts" "fst (ts ! i) = R" "list_all P ts"
    and "\<And>t. t \<in> set ts \<Longrightarrow> fst t \<noteq> R \<Longrightarrow> P t \<Longrightarrow> P' t" and "P' (R, p)"
  shows "list_all P' (ts[i := (R, p)])"
proof -
  have "P' t" if "t \<in> set (ts[i := (R, p)])" for t
  proof -
    from in_set_update_other [OF that]
    consider "t = (R, p)" | j where "j < length ts" "j \<noteq> i" "t = ts ! j" by blast
    then show ?thesis
    proof cases
      case 1
      then show ?thesis using assms(6) by simp
    next
      case 2
      have "fst (ts ! j) \<noteq> R"
        using unique_two [of ts R i j] assms(1,2,3) 2 by (auto simp: unique_def)
      then show ?thesis
        using assms(4,5) 2 by (auto simp: list_all_iff)
    qed
  qed
  then show ?thesis by (simp add: list_all_iff)
qed

lemma shape_role:
  assumes "shape ts" "i < length ts" "ts ! i = (r, a # p)"
  shows "r = Pump \<Longrightarrow> a = RangeWrite \<or> (\<exists>m. a = CallWriteMessage m) \<or> a = Close WriteDone"
    and "r \<noteq> Reader \<Longrightarrow> r \<noteq> Pump \<Longrightarrow> plain a"
    and "r = Reader \<Longrightarrow> allowed (has_pump ts) True a"
    and "r = Reader \<or> r = Pump \<or> plain a"
  using shape_nth [OF assms(1,2)] assms(3)
  by (cases r; auto simp: tinv_def pump_shape_def)+

text \<open>a step that changes none of the two channels, the two lists and the connection\<close>
lemma fl_advance:
  assumes f: "fl co wd wi en rc ts" and s: "shape ts" and i: "i < length ts"
    and t: "ts ! i = (r, a # p)"
    and a: "\<not> is_go_pump a" "a = Recv WriteDone \<longrightarrow> is_closed wd" "a \<noteq> RangeWrite"
      "\<And>m. a \<noteq> CallWriteMessage m" "a \<noteq> Close WriteDone"
  shows "fl co wd wi en rc (ts[i := (r, p)])"
proof -
  have tv: "tstate co wd wi en (has_pump ts) (r, a # p)"
    using f i t nth_mem [of i ts] by (auto simp: fl_def list_all_iff)
  have np: "r \<noteq> Pump"
    using shape_role(1) [OF s i t] a by auto
  have new: "tstate co wd wi en (has_pump ts) (r, p)"
    using tv a np by (cases r) (auto simp: tstate_def)
  have hp: "has_pump (ts[i := (r, p)]) = has_pump ts"
    using has_pump_update [of i ts r p] i t by simp
  have "list_all (tstate co wd wi en (has_pump ts)) (ts[i := (r, p)])"
    using f new by (auto simp: fl_def list_all_iff dest!: set_update_subset_insert [THEN subsetD])
  then show ?thesis
    using f hp by (simp add: fl_def)
qed

lemma fl_spawn:
  assumes "fl co wd wi en rc ts" "list_all (\<lambda>t. fst t \<noteq> Reader \<and> fst t \<noteq> Pump) us"
  shows "fl co wd wi en rc (ts @ us)"
proof -
  have h: "has_pump (ts @ us) = has_pump ts"
    using assms(2) by (auto simp: has_pump_def list_all_iff)
  have "tstate co wd wi en b t" if "t \<in> set us" for t b
    using that assms(2) by (cases "fst t") (auto simp: list_all_iff tstate_def)
  then show ?thesis
    using assms(1) h by (auto simp: fl_def list_all_iff)
qed


lemma fl_nth:
  "fl co wd wi en rc ts \<Longrightarrow> i < length ts \<Longrightarrow> tstate co wd wi en (has_pump ts) (ts ! i)"
  by (simp add: fl_def list_all_iff)

lemma no_pump_thread: "\<not> has_pump ts \<Longrightarrow> t \<in> set ts \<Longrightarrow> fst t \<noteq> Pump"
  using image_eqI [of Pump fst t "set ts"] by (auto simp: has_pump_def)

lemma has_pump_nth: "i < length ts \<Longrightarrow> fst (ts ! i) = Pump \<Longrightarrow> has_pump ts"
  by (auto simp: has_pump_def intro!: image_eqI [where x = "ts ! i"])

text \<open>the read loop makes one of the two channels, before the pump is started\<close>
lemma fl_make:
  assumes f: "fl co wd wi en rc ts" and s: "shape ts" and i: "i < length ts"
    and t: "ts ! i = (r, MakeChan v n # p)" and v: "v = ChanOut \<or> v = WriteDone"
  shows "fl (if v = ChanOut then Some (make_chan n) else co)
            (if v = WriteDone then Some (make_chan n) else wd) wi en rc (ts[i := (r, p)])"
proof -
  have r: "r = Reader"
    using shape_role(4) [OF s i t] shape_role(1) [OF s i t] v by auto
  from shape_role(3) [OF s i t r] v have np: "\<not> has_pump ts" and n: "n = 0" by auto
  from f np have e: "wi = []" "en = []" "\<not> is_closed wd" "\<not> rc" by (auto simp: fl_def)
  have "tstate co wd wi en (has_pump ts) (r, MakeChan v n # p)"
    using fl_nth [OF f i] t by simp
  then have p: "rd_ok False False p"
    using r e np by (simp add: tstate_def)
  have hp: "has_pump (ts[i := (r, p)]) = has_pump ts"
    using has_pump_update [of i ts r p] i t by simp
  let ?co = "if v = ChanOut then Some (make_chan n) else co"
  let ?wd = "if v = WriteDone then Some (make_chan n) else wd"
  have "list_all (tstate ?co ?wd wi en False) (ts[i := (Reader, p)])"
  proof (rule list_all_update_role [where P = "tstate co wd wi en False"])
    show "unique Reader ts" using s by (simp add: shape_def)
    show "fst (ts ! i) = Reader" using t r by simp
    show "list_all (tstate co wd wi en False) ts" using f np unfolding fl_def by metis
    show "tstate ?co ?wd wi en False (Reader, p)" using p by (simp add: tstate_def)
    show "tstate ?co ?wd wi en False u"
      if "u \<in> set ts" "fst u \<noteq> Reader" "tstate co wd wi en False u" for u
      using that no_pump_thread [OF np that(1)] by (cases "fst u") (auto simp: tstate_def)
  qed (rule i)
  then show ?thesis
    using f hp np e n r by (auto simp: fl_def unbuf_def make_chan_def is_closed_def)
qed

text \<open>teardown closes the outbound queue\<close>
lemma fl_close_chanOut:
  assumes f: "fl (Some ch) wd wi en rc ts" and s: "shape ts" and i: "i < length ts"
    and t: "ts ! i = (r, Close ChanOut # p)"
  shows "fl (Some (ch\<lparr>closed := True\<rparr>)) wd wi en rc (ts[i := (r, p)])"
proof -
  have r: "r = Reader"
    using shape_role(4) [OF s i t] shape_role(1) [OF s i t] by auto
  have "tstate (Some ch) wd wi en (has_pump ts) (r, Close ChanOut # p)"
    using fl_nth [OF f i] t by simp
  then have p: "is_closed wd \<or> rd_ok (has_pump ts) False p"
    using r by (auto simp: tstate_def)
  have hp: "has_pump (ts[i := (r, p)]) = has_pump ts"
    using has_pump_update [of i ts r p] i t by simp
  have "list_all (tstate (Some (ch\<lparr>closed := True\<rparr>)) wd wi en (has_pump ts)) (ts[i := (Reader, p)])"
  proof (rule list_all_update_role [where P = "tstate (Some ch) wd wi en (has_pump ts)"])
    show "unique Reader ts" using s by (simp add: shape_def)
    show "fst (ts ! i) = Reader" using t r by simp
    show "list_all (tstate (Some ch) wd wi en (has_pump ts)) ts" using f by (simp add: fl_def)
    show "tstate (Some (ch\<lparr>closed := True\<rparr>)) wd wi en (has_pump ts) (Reader, p)"
      using p by (simp add: tstate_def)
    show "tstate (Some (ch\<lparr>closed := True\<rparr>)) wd wi en (has_pump ts) u"
      if "u \<in> set ts" "fst u \<noteq> Reader" "tstate (Some ch) wd wi en (has_pump ts) u" for u
      using that by (cases "fst u") (auto simp: tstate_def pump_state_def is_closed_def split: if_splits)
  qed (rule i)
  then show ?thesis
    using f hp r by (auto simp: fl_def unbuf_def)
qed

text \<open>the three moves of the write pump, and the handover of an envelope to it\<close>
lemma fl_pump_move:
  assumes f: "fl co wd wi en rc ts" and s: "shape ts" and i: "i < length ts"
    and t: "fst (ts ! i) = Pump"
    and new: "pump_state co' wd' wi' en' q'"
    and u: "unbuf co'" "unbuf wd'" "is_closed wd \<longrightarrow> is_closed wd'"
  shows "fl co' wd' wi' en' rc (ts[i := (Pump, q')])"
proof -
  have hp: "has_pump ts" using has_pump_nth [OF i t] .
  have hp': "has_pump (ts[i := (Pump, q')]) = has_pump ts"
    using has_pump_update [of i ts Pump q'] i t by simp
  have "list_all (tstate co' wd' wi' en' True) (ts[i := (Pump, q')])"
  proof (rule list_all_update_role [where P = "tstate co wd wi en True"])
    show "unique Pump ts" using s by (simp add: shape_def)
    show "list_all (tstate co wd wi en True) ts" using f hp by (simp add: fl_def)
    show "tstate co' wd' wi' en' True (Pump, q')" using new by (simp add: tstate_def)
    show "tstate co' wd' wi' en' True x"
      if "x \<in> set ts" "fst x \<noteq> Pump" "tstate co wd wi en True x" for x
      using that u(3) by (cases "fst x") (auto simp: tstate_def)
  qed (rule i, rule t)
  then show ?thesis
    using f hp hp' u by (auto simp: fl_def)
qed

lemma fl_pump_at:
  assumes f: "fl co wd wi en rc ts" and i: "i < length ts" and t: "ts ! i = (Pump, q)"
  shows "pump_state co wd wi en q"
  using fl_nth [OF f i] t by (simp add: tstate_def)

text \<open>the read loop starts the write pump\<close>
lemma fl_go_pump:
  assumes f: "fl co wd wi en rc ts" and s: "shape ts" and i: "i < length ts"
    and t: "ts ! i = (r, Go Pump q # p)"
  shows "fl co wd wi en rc (ts[i := (r, p)] @ [(Pump, q)])"
proof -
  have tv: "tinv (has_pump ts) (r, Go Pump q # p)"
    using shape_nth [OF s i] t by simp
  then have r: "r = Reader"
    by (cases r) (auto simp: tinv_def pump_shape_def)
  with tv have np: "\<not> has_pump ts" and q: "q = write_pump"
    by (auto simp: tinv_def)
  from f np have e: "wi = []" "en = []" "\<not> is_closed wd" "\<not> rc" by (auto simp: fl_def)
  have "tstate co wd wi en (has_pump ts) (r, Go Pump q # p)"
    using fl_nth [OF f i] t by simp
  then have p: "rd_ok True False p"
    using r e np by (simp add: tstate_def)
  have "list_all (tstate co wd wi en True) (ts[i := (Reader, p)])"
  proof (rule list_all_update_role [where P = "tstate co wd wi en False"])
    show "unique Reader ts" using s by (simp add: shape_def)
    show "fst (ts ! i) = Reader" using t r by simp
    show "list_all (tstate co wd wi en False) ts" using f np unfolding fl_def by metis
    show "tstate co wd wi en True (Reader, p)" using p by (simp add: tstate_def)
    show "tstate co wd wi en True u"
      if "u \<in> set ts" "fst u \<noteq> Reader" "tstate co wd wi en False u" for u
      using that no_pump_thread [OF np that(1)] by (cases "fst u") (auto simp: tstate_def)
  qed (rule i)
  moreover have "tstate co wd wi en True (Pump, q)"
    using q e by (simp add: tstate_def pump_state_def write_pump_def)
  moreover have "has_pump (ts[i := (r, p)] @ [(Pump, q)])"
    by (simp add: has_pump_def)
  ultimately show ?thesis
    using f r by (auto simp: fl_def)
qed

text \<open>teardown closes the connection\<close>
lemma fl_rwc_close:
  assumes f: "fl co wd wi en rc ts" and s: "shape ts" and i: "i < length ts"
    and t: "ts ! i = (r, RwcClose # p)"
  shows "fl co wd wi en True (ts[i := (r, p)])"
proof -
  have r: "r = Reader"
    using shape_role(4) [OF s i t] shape_role(1) [OF s i t] by auto
  have "tstate co wd wi en (has_pump ts) (r, RwcClose # p)"
    using fl_nth [OF f i] t by simp
  then have c: "is_closed wd" using r by (simp add: tstate_def)
  have hp: "has_pump (ts[i := (r, p)]) = has_pump ts"
    using has_pump_update [of i ts r p] i t by simp
  have "tstate co wd wi en (has_pump ts) (r, p)" using r c by (simp add: tstate_def)
  then have "list_all (tstate co wd wi en (has_pump ts)) (ts[i := (r, p)])"
    using f by (auto simp: fl_def list_all_iff dest!: set_update_subset_insert [THEN subsetD])
  then show ?thesis
    using f hp c by (simp add: fl_def)
qed

lemma fl_select:
  assumes f: "fl co wd wi en rc ts" and s: "shape ts" and i: "i < length ts"
    and t: "ts ! i = (r, SelectShutdown x y body # p)"
  shows "fl co wd wi en rc (ts[i := (r, q)])"
proof -
  have r: "r \<noteq> Reader" "r \<noteq> Pump"
    using shape_role(3) [OF s i t] shape_role(1) [OF s i t] by auto
  have hp: "has_pump (ts[i := (r, q)]) = has_pump ts"
    using has_pump_update [of i ts r q] i t by simp
  have "tstate co wd wi en (has_pump ts) (r, q)" using r by (cases r) (auto simp: tstate_def)
  then have "list_all (tstate co wd wi en (has_pump ts)) (ts[i := (r, q)])"
    using f by (auto simp: fl_def list_all_iff dest!: set_update_subset_insert [THEN subsetD])
  then show ?thesis
    using f hp by (simp add: fl_def)
qed

lemma unbuf_send: "unbuf c \<Longrightarrow> chan_send c x \<noteq> Proceeds ch"
  by (auto simp: unbuf_def chan_send_def split: option.splits)

lemma unbuf_recv:
  "unbuf c \<Longrightarrow> chan_recv c = Proceeds (x, ch) \<Longrightarrow> x = None \<and> c = Some ch \<and> is_closed c"
  by (auto simp: unbuf_def chan_recv_def is_closed_def split: option.splits list.splits if_splits)


lemma tinv_pump_head:
  "tinv b (Pump, a # p) \<Longrightarrow>
     (a = RangeWrite \<and> p = [Close WriteDone])
   \<or> (\<exists>m. a = CallWriteMessage m \<and> p = [RangeWrite, Close WriteDone])
   \<or> (a = Close WriteDone \<and> p = [])"
  by (auto simp: tinv_def pump_shape_def)

lemma flushed_exec:
  assumes s: "shape (threads w)" and f: "flushed w" and i: "i < length (threads w)"
    and t: "threads w ! i = (r, a # p)" and e: "exec alt a p i w = Some w'"
  shows "flushed w'"
proof -
  let ?ts = "threads w" and ?co = "chans w ChanOut" and ?wd = "chans w WriteDone"
  have f': "fl ?co ?wd (wire w) (enq w) (rwc_closed w) ?ts"
    using f by (simp add: flushed_def)
  note adv = fl_advance [OF f' s i t]
  note role = shape_role [OF s i t]
  have tv: "tinv (has_pump ?ts) (r, a # p)"
    using shape_nth [OF s i] t by simp
  have ub: "unbuf ?co" "unbuf ?wd" using f' by (simp_all add: fl_def)
  have fi: "fst (?ts ! i) = r" using t by simp
  show ?thesis
  proof (cases a)
    case (MakeChan v n)
    show ?thesis
    proof (cases "v = ChanOut \<or> v = WriteDone")
      case True
      from fl_make [OF f' s i _ True, of r n p] t MakeChan
      show ?thesis using e MakeChan True by (auto simp: flushed_def set_prog_def)
    next
      case False
      then show ?thesis using e MakeChan adv t by (auto simp: flushed_def set_prog_def)
    qed
  next
    case (Close v)
    show ?thesis
    proof (cases "chan_close (chans w v)")
      case (Proceeds ch')
      then obtain ch where ch: "chans w v = Some ch" "\<not> closed ch" "ch' = ch\<lparr>closed := True\<rparr>"
        by (auto simp: chan_close_def split: option.splits if_splits)
      have w': "w' = set_prog i p (w\<lparr>chans := (chans w)(v := Some ch')\<rparr>)"
        using e Close Proceeds by simp
      consider "v = ChanOut" | "v = WriteDone" | "v \<noteq> ChanOut" "v \<noteq> WriteDone" by blast
      then show ?thesis
      proof cases
        case 1
        from fl_close_chanOut [OF _ s i, of ch _ _ _ _ r p] f' ch 1 t Close
        show ?thesis using w' 1 ch t by (simp add: flushed_def set_prog_def)
      next
        case 2
        have r: "r = Pump" using role(2,3) 2 Close by (cases "r = Reader") auto
        with tinv_pump_head [of _ a p] tv Close have p: "p = []" by auto
        have "pump_state ?co ?wd (wire w) (enq w) (a # p)"
          using fl_pump_at [OF f' i] t r by simp
        then have "pump_state ?co (Some ch') (wire w) (enq w) []"
          using p Close ch by (auto simp: pump_state_def is_closed_def split: if_splits)
        from fl_pump_move [OF f' s i _ this] ub ch 2 r t
        have "fl ?co (Some ch') (wire w) (enq w) (rwc_closed w) (?ts[i := (Pump, [])])"
          by (simp add: unbuf_def is_closed_def)
        then show ?thesis using w' 2 r p t by (simp add: flushed_def set_prog_def)
      next
        case 3
        then show ?thesis using w' Close adv t by (auto simp: flushed_def set_prog_def)
      qed
    next
      case Blocks
      then show ?thesis using e Close by simp
    next
      case (Panics x)
      then show ?thesis using e Close f by (auto simp: flushed_def crash_def)
    qed
  next
    case (Send v x)
    show ?thesis
    proof (cases "chan_send (chans w v) x")
      case Blocks
      with e Send obtain ch m j where j: "receiver ?ts = Some j" and x: "x = VMsg m"
        and v: "v = ChanOut"
        and w': "w' = set_prog i p (set_prog j (CallWriteMessage m # snd (?ts ! j))
                         (w\<lparr>enq := enq w @ [m]\<rparr>))"
        by (auto split: option.splits chvar.splits val.splits)
      from receiver_some [OF j] obtain rj q where jl: "j < length ?ts"
        and tj: "?ts ! j = (rj, RangeWrite # q)" by blast
      have ij: "i \<noteq> j" using t tj Send by auto
      have "tinv (has_pump ?ts) (rj, RangeWrite # q)"
        using shape_nth [OF s jl] tj by simp
      from tinv_rangewrite [OF this] have rj: "rj = Pump" and q: "q = [Close WriteDone]" by auto
      have "pump_state ?co ?wd (wire w) (enq w) (RangeWrite # q)"
        using fl_pump_at [OF f' jl] tj rj by simp
      then have "pump_state ?co ?wd (wire w) (enq w @ [m]) (CallWriteMessage m # RangeWrite # q)"
        using q by (auto simp: pump_state_def split: if_splits)
      from fl_pump_move [OF f' s jl _ this] ub tj rj
      have f1: "fl ?co ?wd (wire w) (enq w @ [m]) (rwc_closed w)
                  (?ts[j := (Pump, CallWriteMessage m # RangeWrite # q)])" (is "fl _ _ _ _ _ ?ts1")
        by simp
      have s1: "shape ?ts1" using shape_handover [OF s jl tj] rj by simp
      have ti: "?ts1 ! i = (r, a # p)" using t ij by simp
      have il: "i < length ?ts1" using i by simp
      have "fl ?co ?wd (wire w) (enq w @ [m]) (rwc_closed w) (?ts1[i := (r, p)])"
        using fl_advance [OF f1 s1 il ti] Send by simp
      then show ?thesis
        using w' tj t ij rj by (simp add: flushed_def set_prog_def)
    next
      case (Proceeds ch)
      with unbuf_send ub have v: "v \<noteq> ChanOut" "v \<noteq> WriteDone" by auto
      then show ?thesis
        using e Send Proceeds adv t
        by (cases v) (auto simp: flushed_def set_prog_def sent_def)
    next
      case (Panics x)
      then show ?thesis using e Send f by (auto simp: flushed_def crash_def)
    qed
  next
    case (Recv v)
    from e Recv obtain x ch where rc: "chan_recv (chans w v) = Proceeds (x, ch)"
      and w': "w' = set_prog i p (w\<lparr>chans := (chans w)(v := Some ch)\<rparr>)"
      by (auto split: effect.splits)
    have nco: "v \<noteq> ChanOut" using role Recv by (cases "r = Reader"; cases "r = Pump") auto
    show ?thesis
    proof (cases "v = WriteDone")
      case True
      from unbuf_recv [OF ub(2)] rc True have same: "chans w WriteDone = Some ch" and c: "is_closed ?wd"
        by auto
      from adv Recv c have "fl ?co ?wd (wire w) (enq w) (rwc_closed w) (?ts[i := (r, p)])" by simp
      then show ?thesis using w' True same t by (simp add: flushed_def set_prog_def)
    next
      case False
      then show ?thesis using w' nco Recv adv t by (auto simp: flushed_def set_prog_def)
    qed
  next
    case RangeWrite
    from tinv_rangewrite [of _ r p] tv RangeWrite have r: "r = Pump" and p: "p = [Close WriteDone]"
      by auto
    from e RangeWrite obtain x ch where rc: "chan_recv ?co = Proceeds (x, ch)"
      by (auto split: effect.splits)
    from unbuf_recv [OF ub(1) rc] have x: "x = None" and c: "is_closed ?co" by auto
    have w': "w' = set_prog i p w" using e RangeWrite rc x by simp
    have "pump_state ?co ?wd (wire w) (enq w) (a # p)"
      using fl_pump_at [OF f' i] t r by simp
    then have "pump_state ?co ?wd (wire w) (enq w) p"
      using p RangeWrite c by (auto simp: pump_state_def split: if_splits)
    from fl_pump_move [OF f' s i _ this] ub r t
    show ?thesis using w' r t by (simp add: flushed_def set_prog_def)
  next
    case (CallWriteMessage m)
    have r: "r = Pump" using role(2,3) CallWriteMessage by (cases "r = Reader") auto
    with tinv_pump_head [of _ a p] tv CallWriteMessage have p: "p = [RangeWrite, Close WriteDone]"
      by auto
    have "pump_state ?co ?wd (wire w) (enq w) (a # p)"
      using fl_pump_at [OF f' i] t r by simp
    then have "pump_state ?co ?wd (wire w @ [m]) (enq w) p"
      using p CallWriteMessage by (auto simp: pump_state_def split: if_splits)
    from fl_pump_move [OF f' s i _ this] ub r t
    show ?thesis using e CallWriteMessage r t by (auto simp: flushed_def set_prog_def)
  next
    case (SelectShutdown x y body)
    from fl_select [OF f' s i, of r x y body p] t SelectShutdown
    show ?thesis using e SelectShutdown t by (auto simp: flushed_def set_prog_def split: if_splits)
  next
    case GoAbandonAll
    have "fl ?co ?wd (wire w) (enq w) (rwc_closed w)
            (?ts[i := (r, p)] @ map (\<lambda>(key, m). (Abandoner, Abandon m)) l)" for l
      using adv GoAbandonAll by (intro fl_spawn) (auto simp: list_all_iff)
    then show ?thesis using e GoAbandonAll t by (auto simp: flushed_def set_prog_def spawn_def)
  next
    case (Go r' q)
    show ?thesis
    proof (cases "r' = Pump")
      case True
      from fl_go_pump [OF f' s i, of r q p] t Go True
      show ?thesis using e Go True t by (auto simp: flushed_def set_prog_def spawn_def)
    next
      case False
      with tinv_go [of _ r r' q p] tv Go have "r' \<noteq> Reader" by simp
      with False have "fl ?co ?wd (wire w) (enq w) (rwc_closed w) (?ts[i := (r, p)] @ [(r', q)])"
        using adv Go by (intro fl_spawn) simp_all
      then show ?thesis using e Go t by (auto simp: flushed_def set_prog_def spawn_def)
    qed
  next
    case RwcClose
    from fl_rwc_close [OF f' s i, of r p] t RwcClose
    show ?thesis using e RwcClose t by (auto simp: flushed_def set_prog_def)
  qed (use e adv f t in \<open>auto simp: flushed_def set_prog_def crash_def split: option.splits if_splits\<close>)
qed

lemma flushed_step:
  assumes s: "shape (threads w)" and f: "flushed w" and st: "step pk w = Some w'"
  shows "flushed w'"
proof (cases pk)
  case (Run i)
  from st Run have "run_thread False i w = Some w'" by (simp add: step_def split: if_splits)
  then show ?thesis
    using flushed_exec [OF s f] by (elim run_thread_some) (auto simp: flushed_def)
next
  case (RunAlt i)
  from st RunAlt have "run_thread True i w = Some w'" by (simp add: step_def split: if_splits)
  then show ?thesis
    using flushed_exec [OF s f] by (elim run_thread_some) (auto simp: flushed_def)
next
  case StopCalled
  with st f show ?thesis
    by (auto simp: step_def crash_def flushed_def split: if_splits effect.splits)
qed

lemma run_invariant:
  "shape (threads w) \<Longrightarrow> flushed w \<Longrightarrow> shape (threads (run pks w)) \<and> flushed (run pks w)"
proof (induction pks arbitrary: w)
  case Nil
  then show ?case by simp
next
  case (Cons pk pks)
  show ?case
  proof (cases "step pk w")
    case None
    then show ?thesis using Cons by simp
  next
    case (Some w')
    with Cons.prems have "shape (threads w')" "flushed w'"
      by (auto intro: shape_step flushed_step)
    with Cons.IH [of w'] Some show ?thesis by simp
  qed
qed

lemma flushed_closed:
  assumes "flushed w" "rwc_closed w"
  shows "wire w = enq w"
proof -
  from assms have c: "is_closed (chans w WriteDone)" by (simp add: flushed_def fl_def)
  with assms(1) have "has_pump (threads w)" by (auto simp: flushed_def fl_def)
  then obtain t where t: "t \<in> set (threads w)" "fst t = Pump"
    by (auto simp: has_pump_def)
  with assms(1) have "tstate (chans w ChanOut) (chans w WriteDone) (wire w) (enq w) True t"
    using \<open>has_pump (threads w)\<close> by (auto simp: flushed_def fl_def list_all_iff)
  with t c show ?thesis by (simp add: tstate_def pump_state_def)
qed

subsection \<open>The session as started satisfies the invariants\<close>

lemma allowed_any: "allowed b False a \<Longrightarrow> allowed b g a"
  by (cases a) auto

lemma rd_ok_any: "rd_ok b False p \<Longrightarrow> rd_ok b g p"
  by (cases p) (auto intro: allowed_any)

lemma rd_ok_append:
  "list_all (neutral b) xs \<Longrightarrow> rd_ok b False q \<Longrightarrow> rd_ok b g (xs @ q)"
proof (induction xs arbitrary: g)
  case Nil
  then show ?case by (simp add: rd_ok_any)
next
  case (Cons a xs)
  then show ?case by (auto simp: neutral_def intro: allowed_any)
qed

lemma plain_ProcessRequestMessage: "list_all plain (ProcessRequestMessage s c message n)"
  by (auto simp: ProcessRequestMessage_def registerRequest_def unregisterRequest_def
      ServeLDAP_sends Let_def list_all_iff split: option.splits)

lemma neutral_ProcessRequestMessage: "list_all (neutral b) (ProcessRequestMessage s c message n)"
  by (auto simp: ProcessRequestMessage_def registerRequest_def unregisterRequest_def
      ServeLDAP_sends Let_def list_all_iff neutral_def split: option.splits)

lemma neutral_read_deadlines: "list_all (neutral b) (read_deadlines s)"
  by (simp add: read_deadlines_def neutral_def)

lemma rd_ok_client_close: "rd_ok b False client_close"
  by (simp add: client_close_def)

lemma neutral_simps:
  "neutral b (ReadPacket x)" "neutral b (Log l)" "neutral b WgAdd"
  "list_all plain q \<Longrightarrow> neutral b (Go Worker q)"
  by (simp_all add: neutral_def)

lemma neutral_loop:
  "list_all (neutral True) (fst (client_serve_loop k s c n ins))"
proof (induction k s c n ins rule: client_serve_loop.induct)
  case (1 k s c n)
  then show ?case by (simp add: neutral_read_deadlines)
next
  case (2 k s c n e ins)
  then show ?case by (simp add: neutral_read_deadlines neutral_simps)
next
  case (3 k s c n msg ins)
  then show ?case by (simp add: neutral_read_deadlines neutral_simps)
next
  case (4 k s c n message ins)
  then show ?case
    by (simp add: prepend_def neutral_read_deadlines neutral_simps
        neutral_ProcessRequestMessage plain_ProcessRequestMessage)
qed

lemma rd_ok_client_serve: "rd_ok False False (fst (client_serve k s c ins))"
proof -
  have loop: "rd_ok True False (fst (client_serve_loop k s c 0 ins) @ q)" if "rd_ok True False q" for q
    using rd_ok_append [OF neutral_loop that] .
  have w: "list_all plain (shutdown_watcher k)"
    by (simp add: shutdown_watcher_def)
  show ?thesis
    using loop [of client_close] loop [of "[]"] w rd_ok_client_close [of True]
      rd_ok_client_close [of False]
    by (cases "client_serve_loop k s c 0 ins")
       (auto simp: client_serve_def split: option.splits outcome.splits)
qed

lemma session_invariant: "rd_ok False False prog \<Longrightarrow> shape (threads (session prog)) \<and> flushed (session prog)"
  by (auto simp: session_def shape_def unique_def has_pump_def tinv_def flushed_def fl_def
      unbuf_def is_closed_def tstate_def intro: rd_ok_mono)

text \<open>
  X1: for every session (whatever the server's configuration, the handler and what the peer
  sends) and every schedule of its goroutines, once the connection is closed every envelope
  whose send on the outbound queue completed has been handed to \<open>writeMessage\<close>, in the
  order of the sends: teardown loses no response.
\<close>

theorem teardown_loses_no_response: "rwc_closed (run pks (session (fst (client_serve k s c ins)))) \<longrightarrow>
   wire (run pks (session (fst (client_serve k s c ins)))) =
   enq (run pks (session (fst (client_serve k s c ins))))"
  using run_invariant [of "session (fst (client_serve k s c ins))" pks]
    session_invariant [OF rd_ok_client_serve, of k s c ins]
  by (auto intro: flushed_closed)

theorem teardown_loses_no_response_witness:
  "rwc_closed
     (run (replicate 16 (Run 0) @ replicate 9 (Run 3) @ [Run 1] @ replicate 2 (Run 0) @
           replicate 2 (Run 1) @ replicate 4 (Run 0))
        (session
           (fst (client_serve
                   \<lparr>NoticeOfStartTLS = ''1.3.6.1.4.1.1466.20037'',
                    NoticeOfDisconnection = ''1.3.6.1.4.1.1466.20036'',
                    LDAPResultUnwillingToPerform = 53\<rparr>
                   (NewServer\<lparr>Handler := Some (\<lambda>m. [CallWrite (OtherOp 1)])\<rparr>)
                   \<lparr>numero = 1, rwc = Conn 1\<rparr>
                   [Decoded \<lparr>messageID = 1, protocolOp = OtherOp 0\<rparr>,
                    Decoded \<lparr>messageID = 2, protocolOp = UnbindRequest\<rparr>]))))
   \<and> wire
     (run (replicate 16 (Run 0) @ replicate 9 (Run 3) @ [Run 1] @ replicate 2 (Run 0) @
           replicate 2 (Run 1) @ replicate 4 (Run 0))
        (session
           (fst (client_serve
                   \<lparr>NoticeOfStartTLS = ''1.3.6.1.4.1.1466.20037'',
                    NoticeOfDisconnection = ''1.3.6.1.4.1.1466.20036'',
                    LDAPResultUnwillingToPerform = 53\<rparr>
                   (NewServer\<lparr>Handler := Some (\<lambda>m. [CallWrite (OtherOp 1)])\<rparr>)
                   \<lparr>numero = 1, rwc = Conn 1\<rparr>
                   [Decoded \<lparr>messageID = 1, protocolOp = OtherOp 0\<rparr>,
                    Decoded \<lparr>messageID = 2, protocolOp = UnbindRequest\<rparr>]))))
     = [\<lparr>messageID = 1, protocolOp = OtherOp 1\<rparr>]
   \<and> enq
     (run (replicate 16 (Run 0) @ replicate 9 (Run 3) @ [Run 1] @ replicate 2 (Run 0) @
           replicate 2 (Run 1) @ replicate 4 (Run 0))
        (session
           (fst (client_serve
                   \<lparr>NoticeOfStartTLS = ''1.3.6.1.4.1.1466.20037'',
                    NoticeOfDisconnection = ''1.3.6.1.4.1.1466.20036'',
                    LDAPResultUnwillingToPerform = 53\<rparr>
                   (NewServer\<lparr>Handler := Some (\<lambda>m. [CallWrite (OtherOp 1)])\<rparr>)
                   \<lparr>numero = 1, rwc = Conn 1\<rparr>
                   [Decoded \<lparr>messageID = 1, protocolOp = OtherOp 0\<rparr>,
                    Decoded \<lparr>messageID = 2, protocolOp = UnbindRequest\<rparr>]))))
     = [\<lparr>messageID = 1, protocolOp = OtherOp 1\<rparr>]"
  using teardown_loses_no_response
    [where pks = "replicate 16 (Run 0) @ replicate 9 (Run 3) @ [Run 1] @ replicate 2 (Run 0) @
           replicate 2 (Run 1) @ replicate 4 (Run 0)"
       and k = "\<lparr>NoticeOfStartTLS = ''1.3.6.1.4.1.1466.20037'',
                 NoticeOfDisconnection = ''1.3.6.1.4.1.1466.20036'',
                 LDAPResultUnwillingToPerform = 53\<rparr>"
       and s = "NewServer\<lparr>Handler := Some (\<lambda>m. [CallWrite (OtherOp 1)])\<rparr>"
       and c = "\<lparr>numero = 1, rwc = Conn 1\<rparr>"
       and ins = "[Decoded \<lparr>messageID = 1, protocolOp = OtherOp 0\<rparr>,
                   Decoded \<lparr>messageID = 2, protocolOp = UnbindRequest\<rparr>]"]
  by (simp add: client_serve_def client_close_def session_def numeral_eq_Suc step_def
      run_thread_def set_prog_def spawn_def crash_def chan_close_def chan_send_def chan_recv_def
      make_chan_def NewServer_def read_deadlines_def prepend_def is_startTLS_def
      ProcessRequestMessage_def registerRequest_def unregisterRequest_def ServeLDAP_def
      rw_Write_def NewLDAPMessageWithProtocolOp_def SetMessageID_def write_pump_def
      shutdown_watcher_def Abandon_def sent_def Let_def)

lemma flushed_order:
  assumes "flushed w" "shape (threads w)"
  shows "wire w = enq w \<or> (\<exists>m. enq w = wire w @ [m])"
proof (cases "has_pump (threads w)")
  case False
  with assms(1) show ?thesis by (simp add: flushed_def fl_def)
next
  case True
  then obtain t where t: "t \<in> set (threads w)" "fst t = Pump"
    by (auto simp: has_pump_def)
  with assms(1) True have "tstate (chans w ChanOut) (chans w WriteDone) (wire w) (enq w) True t"
    by (auto simp: flushed_def fl_def list_all_iff)
  with t show ?thesis by (auto simp: tstate_def pump_state_def split: if_splits)
qed

text \<open>
  X2: in every state a session reaches, the envelopes written are the first of the envelopes
  enqueued, in the same order, and at most one enqueued envelope is not yet written: the
  write pump writes in enqueue order and a handler's send completes only when the pump has
  written what came before.
\<close>

theorem writes_follow_enqueue_order: "wire (run pks (session (fst (client_serve k s c ins)))) =
     take (length (wire (run pks (session (fst (client_serve k s c ins))))))
       (enq (run pks (session (fst (client_serve k s c ins)))))
   \<and> length (enq (run pks (session (fst (client_serve k s c ins)))))
       \<le> Suc (length (wire (run pks (session (fst (client_serve k s c ins))))))"
  using run_invariant [of "session (fst (client_serve k s c ins))" pks]
    session_invariant [OF rd_ok_client_serve, of k s c ins]
    flushed_order [of "run pks (session (fst (client_serve k s c ins)))"]
  by auto

subsection \<open>The read loop performs its program in order\<close>

lemma exec_thread0:
  assumes s: "shape (threads w)" and i: "i < length (threads w)"
    and t: "threads w ! i = (r, a # p)" and e: "exec alt a p i w = Some w'"
    and z: "fst (threads w ! 0) = Reader"
  shows "(threads w' = threads w \<and> events w' = events w \<and> crashed w' \<noteq> None)
       \<or> (crashed w' = crashed w \<and> events w' = events w
          \<and> threads w' ! 0 = (if i = 0 then (Reader, p) else threads w ! 0)
          \<and> threads w' \<noteq> [])"
proof -
  have tv: "tinv (has_pump (threads w)) (r, a # p)"
    using shape_nth [OF s i] t by simp
  have r0: "i = 0 \<Longrightarrow> r = Reader" using t z by auto
  have ne: "threads w \<noteq> []" using i by auto
  show ?thesis
  proof (cases a)
    case (Send v x)
    show ?thesis
    proof (cases "chan_send (chans w v) x")
      case Blocks
      with e Send obtain ch m j where j: "receiver (threads w) = Some j"
        and w': "w' = set_prog i p (set_prog j (CallWriteMessage m # snd (threads w ! j))
                         (w\<lparr>enq := enq w @ [m]\<rparr>))"
        by (auto split: option.splits chvar.splits val.splits)
      from receiver_some [OF j] obtain rj q where jl: "j < length (threads w)"
        and tj: "threads w ! j = (rj, RangeWrite # q)" by blast
      have ij: "i \<noteq> j" using t tj Send by auto
      have "tinv (has_pump (threads w)) (rj, RangeWrite # q)"
        using shape_nth [OF s jl] tj by simp
      from tinv_rangewrite [OF this] have "rj = Pump" by simp
      then have j0: "j \<noteq> 0" using tj z by (cases "j = 0") auto
      show ?thesis
        using w' t tj ij j0 i jl r0 ne by (auto simp: set_prog_def)
    next
      case (Proceeds ch)
      then show ?thesis using e Send t i r0 ne by (auto simp: set_prog_def)
    next
      case (Panics x)
      then show ?thesis using e Send by (auto simp: crash_def)
    qed
  next
    case (SelectShutdown x y body)
    with tinv_select [of _ r x y body p] tv have "r \<noteq> Reader"
      by (cases r) (auto simp: tinv_def)
    with r0 have "i \<noteq> 0" by auto
    then show ?thesis
      using e SelectShutdown t i ne by (auto simp: set_prog_def split: if_splits)
  next
    case RangeWrite
    with tinv_rangewrite [of _ r p] tv have "r = Pump" by simp
    with r0 have "i \<noteq> 0" by auto
    then show ?thesis
      using e RangeWrite t i ne
      by (auto simp: set_prog_def split: effect.splits option.splits val.splits)
  qed (use e t i r0 ne in \<open>auto simp: set_prog_def spawn_def crash_def nth_append
         split: effect.splits option.splits if_splits\<close>)
qed

lemma in_order_step:
  assumes s: "shape (threads w)" and o: "in_order P w" and st: "step pk w = Some w'"
  shows "in_order P w'"
proof -
  have run: "in_order P w'" if rt: "run_thread alt i w = Some w'" and c: "crashed w = None" for alt i
  proof -
    from rt obtain r a p w0 where i: "i < length (threads w)" and t: "threads w ! i = (r, a # p)"
      and e: "exec alt a p i w = Some w0" and w': "w' = w0\<lparr>events := events w0 @ [(i, a)]\<rparr>"
      by (rule run_thread_some)
    from o have z: "fst (threads w ! 0) = Reader" by (simp add: in_order_def)
    from o c have P: "done_by 0 w @ snd (threads w ! 0) = P" by (simp add: in_order_def)
    from exec_thread0 [OF s i t e z] show ?thesis
    proof
      assume "threads w0 = threads w \<and> events w0 = events w \<and> crashed w0 \<noteq> None"
      then have same: "threads w0 = threads w" "events w0 = events w" "crashed w0 \<noteq> None"
        by simp_all
      show ?thesis
      proof (cases "i = 0")
        case True
        with t P have "P = done_by 0 w @ a # p" by simp
        then show ?thesis
          using o w' same True by (auto simp: in_order_def done_by_def)
      next
        case False
        then show ?thesis
          using o w' same by (auto simp: in_order_def done_by_def)
      qed
    next
      assume k: "crashed w0 = crashed w \<and> events w0 = events w
          \<and> threads w0 ! 0 = (if i = 0 then (Reader, p) else threads w ! 0) \<and> threads w0 \<noteq> []"
      show ?thesis
      proof (cases "i = 0")
        case True
        with t P have "P = done_by 0 w @ a # p" by simp
        then show ?thesis
          using w' k True by (auto simp: in_order_def done_by_def)
      next
        case False
        then show ?thesis
          using o w' k P by (auto simp: in_order_def done_by_def)
      qed
    qed
  qed
  show ?thesis
  proof (cases pk)
    case (Run i)
    with st run [of False i] show ?thesis by (simp add: step_def split: if_splits)
  next
    case (RunAlt i)
    with st run [of True i] show ?thesis by (simp add: step_def split: if_splits)
  next
    case StopCalled
    with st o show ?thesis
      by (auto simp: step_def crash_def in_order_def done_by_def split: if_splits effect.splits)
  qed
qed

lemma in_order_run:
  "shape (threads w) \<Longrightarrow> flushed w \<Longrightarrow> in_order P w \<Longrightarrow> in_order P (run pks w)"
proof (induction pks arbitrary: w)
  case Nil
  then show ?case by simp
next
  case (Cons pk pks)
  show ?case
  proof (cases "step pk w")
    case None
    then show ?thesis using Cons by simp
  next
    case (Some w')
    with Cons.prems have "shape (threads w')" "flushed w'" "in_order P w'"
      by (auto intro: shape_step flushed_step in_order_step)
    with Cons.IH [of w'] Some show ?thesis by simp
  qed
qed

text \<open>
  X3: under every schedule the read-loop goroutine (teardown included) performs its
  operations in the order of its program: at any moment what it has performed is an initial
  segment of the program of \<open>client.serve\<close>, which ends with the steps of \<open>close\<close>.
\<close>

theorem read_loop_in_program_order:
  "done_by 0 (run pks (session (fst (client_serve k s c ins)))) =
     take (length (done_by 0 (run pks (session (fst (client_serve k s c ins))))))
       (fst (client_serve k s c ins))"
proof -
  have "in_order (fst (client_serve k s c ins)) (session (fst (client_serve k s c ins)))"
    by (simp add: in_order_def session_def done_by_def)
  with in_order_run [of "session (fst (client_serve k s c ins))" "fst (client_serve k s c ins)" pks]
    session_invariant [OF rd_ok_client_serve, of k s c ins]
  show ?thesis by (simp add: in_order_def)
qed

subsection \<open>Only the write pump writes to the connection\<close>

lemma exec_roles:
  assumes "exec alt a p i w = Some w'" "i < length (threads w)"
  shows "length (threads w) \<le> length (threads w')
       \<and> (\<forall>j < length (threads w). fst (threads w' ! j) = fst (threads w ! j))
       \<and> events w' = events w"
proof (cases a)
  case (Send v x)
  show ?thesis
  proof (cases "chan_send (chans w v) x")
    case Blocks
    with assms Send obtain m j where j: "receiver (threads w) = Some j"
      and w': "w' = set_prog i p (set_prog j (CallWriteMessage m # snd (threads w ! j))
                       (w\<lparr>enq := enq w @ [m]\<rparr>))"
      by (auto split: option.splits chvar.splits val.splits)
    from receiver_some [OF j] have "j < length (threads w)" by simp
    with w' assms(2) show ?thesis
      by (auto simp: set_prog_def nth_list_update)
  next
    case (Proceeds ch)
    with assms Send show ?thesis by (auto simp: set_prog_def nth_list_update)
  next
    case (Panics x)
    with assms Send show ?thesis by (auto simp: crash_def)
  qed
qed (use assms in \<open>auto simp: set_prog_def spawn_def crash_def nth_append nth_list_update
       split: effect.splits option.splits if_splits val.splits\<close>)

lemma single_writer_step:
  assumes s: "shape (threads w)" and o: "single_writer w" and st: "step pk w = Some w'"
  shows "single_writer w'"
proof -
  have run: "single_writer w'" if rt: "run_thread alt i w = Some w'" for alt i
  proof -
    from rt obtain r a p w0 where i: "i < length (threads w)" and t: "threads w ! i = (r, a # p)"
      and e: "exec alt a p i w = Some w0" and w': "w' = w0\<lparr>events := events w0 @ [(i, a)]\<rparr>"
      by (rule run_thread_some)
    from exec_roles [OF e i] have len: "length (threads w) \<le> length (threads w0)"
      and roles: "\<And>j. j < length (threads w) \<Longrightarrow> fst (threads w0 ! j) = fst (threads w ! j)"
      and ev: "events w0 = events w" by auto
    have new: "fst (threads w ! i) = Pump" if "a = CallWriteMessage m" for m
      using shape_role(2,3) [OF s i t] that t by (cases "r = Reader"; cases "r = Pump") auto
    have "j < length (threads w0) \<and> fst (threads w0 ! j) = Pump"
      if "(j, CallWriteMessage m) \<in> set (events w @ [(i, a)])" for j m
    proof (cases "(j, CallWriteMessage m) \<in> set (events w)")
      case True
      with o have "j < length (threads w)" "fst (threads w ! j) = Pump"
        by (auto simp: single_writer_def)
      with len roles [of j] show ?thesis by simp
    next
      case False
      with that have "j = i" "a = CallWriteMessage m" by auto
      with new [of m] len roles [OF i] i show ?thesis by simp
    qed
    then show ?thesis
      using w' ev by (simp add: single_writer_def)
  qed
  show ?thesis
  proof (cases pk)
    case (Run i)
    with st run [of False i] show ?thesis by (simp add: step_def split: if_splits)
  next
    case (RunAlt i)
    with st run [of True i] show ?thesis by (simp add: step_def split: if_splits)
  next
    case StopCalled
    with st have "threads w' = threads w" "events w' = events w"
      by (auto simp: step_def crash_def split: if_splits effect.splits)
    with o show ?thesis by (simp add: single_writer_def)
  qed
qed

lemma single_writer_run:
  "shape (threads w) \<Longrightarrow> flushed w \<Longrightarrow> single_writer w \<Longrightarrow> single_writer (run pks w)"
proof (induction pks arbitrary: w)
  case Nil
  then show ?case by simp
next
  case (Cons pk pks)
  show ?case
  proof (cases "step pk w")
    case None
    then show ?thesis using Cons by simp
  next
    case (Some w')
    with Cons.prems have "shape (threads w')" "flushed w'" "single_writer w'"
      by (auto intro: shape_step flushed_step single_writer_step)
    with Cons.IH [of w'] Some show ?thesis by simp
  qed
qed

text \<open>
  X4: under every schedule the connection has a single writer: any two calls of
  \<open>writeMessage\<close> are made by the same goroutine, and that goroutine is the write pump
  started by \<open>client.serve\<close>.  Handlers, the shutdown watcher and the read loop only
  send on \<open>chanOut\<close>.
\<close>

theorem one_goroutine_writes:
  "(i, CallWriteMessage m) \<in> set (events (run pks (session (fst (client_serve k s c ins)))))
   \<and> (j, CallWriteMessage m') \<in> set (events (run pks (session (fst (client_serve k s c ins)))))
   \<longrightarrow> i = j
     \<and> fst (threads (run pks (session (fst (client_serve k s c ins)))) ! i) = Pump"
proof -
  let ?w = "run pks (session (fst (client_serve k s c ins)))"
  have init: "shape (threads (session (fst (client_serve k s c ins))))"
    "flushed (session (fst (client_serve k s c ins)))"
    using session_invariant [OF rd_ok_client_serve, of k s c ins] by simp_all
  have "single_writer (session (fst (client_serve k s c ins)))"
    by (simp add: single_writer_def session_def)
  with init have sw: "single_writer ?w" by (rule single_writer_run)
  from init have sh: "shape (threads ?w)" using run_invariant by blast
  show ?thesis
  proof (intro impI, elim conjE)
    assume a: "(i, CallWriteMessage m) \<in> set (events ?w)"
      and b: "(j, CallWriteMessage m') \<in> set (events ?w)"
    from sw a have i: "i < length (threads ?w)" "fst (threads ?w ! i) = Pump"
      by (auto simp: single_writer_def)
    from sw b have j: "j < length (threads ?w)" "fst (threads ?w ! j) = Pump"
      by (auto simp: single_writer_def)
    from sh have "count_list (map fst (threads ?w)) Pump \<le> 1"
      by (simp add: shape_def unique_def)
    from unique_two [OF this i(1) j(1) i(2) j(2)] have "i = j" .
    with i(2) show "i = j \<and> fst (threads ?w ! i) = Pump" by simp
  qed
qed

theorem one_goroutine_writes_witness:
  "(1, CallWriteMessage \<lparr>messageID = 1, protocolOp = OtherOp 1\<rparr>)
     \<in> set (events
     (run (replicate 16 (Run 0) @ replicate 5 (Run 3) @ [Run 1, Run 3, Run 1])
        (session
           (fst (client_serve
                   \<lparr>NoticeOfStartTLS = ''1.3.6.1.4.1.1466.20037'',
                    NoticeOfDisconnection = ''1.3.6.1.4.1.1466.20036'',
                    LDAPResultUnwillingToPerform = 53\<rparr>
                   (NewServer\<lparr>Handler := Some (\<lambda>m. [CallWrite (OtherOp 1), CallWrite (OtherOp 2)])\<rparr>)
                   \<lparr>numero = 1, rwc = Conn 1\<rparr>
                   [Decoded \<lparr>messageID = 1, protocolOp = OtherOp 0\<rparr>,
                    Decoded \<lparr>messageID = 2, protocolOp = UnbindRequest\<rparr>])))))
   \<and> (1, CallWriteMessage \<lparr>messageID = 1, protocolOp = OtherOp 2\<rparr>)
     \<in> set (events
     (run (replicate 16 (Run 0) @ replicate 5 (Run 3) @ [Run 1, Run 3, Run 1])
        (session
           (fst (client_serve
                   \<lparr>NoticeOfStartTLS = ''1.3.6.1.4.1.1466.20037'',
                    NoticeOfDisconnection = ''1.3.6.1.4.1.1466.20036'',
                    LDAPResultUnwillingToPerform = 53\<rparr>
                   (NewServer\<lparr>Handler := Some (\<lambda>m. [CallWrite (OtherOp 1), CallWrite (OtherOp 2)])\<rparr>)
                   \<lparr>numero = 1, rwc = Conn 1\<rparr>
                   [Decoded \<lparr>messageID = 1, protocolOp = OtherOp 0\<rparr>,
                    Decoded \<lparr>messageID = 2, protocolOp = UnbindRequest\<rparr>])))))
   \<and> fst (threads
     (run (replicate 16 (Run 0) @ replicate 5 (Run 3) @ [Run 1, Run 3, Run 1])
        (session
           (fst (client_serve
                   \<lparr>NoticeOfStartTLS = ''1.3.6.1.4.1.1466.20037'',
                    NoticeOfDisconnection = ''1.3.6.1.4.1.1466.20036'',
                    LDAPResultUnwillingToPerform = 53\<rparr>
                   (NewServer\<lparr>Handler := Some (\<lambda>m. [CallWrite (OtherOp 1), CallWrite (OtherOp 2)])\<rparr>)
                   \<lparr>numero = 1, rwc = Conn 1\<rparr>
                   [Decoded \<lparr>messageID = 1, protocolOp = OtherOp 0\<rparr>,
                    Decoded \<lparr>messageID = 2, protocolOp = UnbindRequest\<rparr>])))) ! 1) = Pump"
  using one_goroutine_writes
    [where pks = "replicate 16 (Run 0) @ replicate 5 (Run 3) @ [Run 1, Run 3, Run 1]"
       and k = "\<lparr>NoticeOfStartTLS = ''1.3.6.1.4.1.1466.20037'',
                 NoticeOfDisconnection = ''1.3.6.1.4.1.1466.20036'',
                 LDAPResultUnwillingToPerform = 53\<rparr>"
       and s = "NewServer\<lparr>Handler := Some (\<lambda>m. [CallWrite (OtherOp 1), CallWrite (OtherOp 2)])\<rparr>"
       and c = "\<lparr>numero = 1, rwc = Conn 1\<rparr>"
       and ins = "[Decoded \<lparr>messageID = 1, protocolOp = OtherOp 0\<rparr>,
                   Decoded \<lparr>messageID = 2, protocolOp = UnbindRequest\<rparr>]"
       and i = 1 and j = 1
       and m = "\<lparr>messageID = 1, protocolOp = OtherOp 1\<rparr>"
       and m' = "\<lparr>messageID = 1, protocolOp = OtherOp 2\<rparr>"]
  by (simp add: client_serve_def client_close_def session_def numeral_eq_Suc step_def
      run_thread_def set_prog_def spawn_def crash_def chan_close_def chan_send_def chan_recv_def
      make_chan_def NewServer_def read_deadlines_def prepend_def is_startTLS_def
      ProcessRequestMessage_def registerRequest_def unregisterRequest_def ServeLDAP_def
      rw_Write_def NewLDAPMessageWithProtocolOp_def SetMessageID_def write_pump_def
      shutdown_watcher_def Abandon_def sent_def Let_def)

section \<open>Posting a cancellation signal never blocks\<close>

lemma occs_simps [simp]: "occs P [] = 0" "occs P (a # p) = occ P a + occs P p"
  "occs P (p @ q) = occs P p + occs P q"
  by (simp_all add: occs_def)

lemma tot_simps [simp]: "tot P [] = 0" "tot P (t # ts) = occs P (snd t) + tot P ts"
  "tot P (ts @ us) = tot P ts + tot P us"
  by (simp_all add: tot_def)

lemma tot_update:
  "i < length ts \<Longrightarrow> snd (ts ! i) = q \<Longrightarrow> tot P (ts[i := (r, p)]) + occs P q = tot P ts + occs P p"
proof (induction ts arbitrary: i)
  case Nil
  then show ?case by simp
next
  case (Cons t ts)
  then show ?case by (cases i) (auto simp: add.assoc)
qed





lemma tot_replace:
  assumes "i < length ts" "ts ! i = (r, a # p)"
  shows "tot P (ts[i := (r', q)]) + occ P a + occs P p = tot P ts + occs P q"
  using tot_update [OF assms(1), of "a # p" P r' q] assms(2) by simp















































end
